theory Spec2Isabelle
  imports Main "HOL-Library.Word"
begin

unbundle bit_operations_syntax

section \<open>The allocator\<close>

text \<open>
  Every block of the path code and of the two back ends comes from \<open>pfs_malloc\<close> and goes
  back through \<open>pfs_free\<close>. The heap of the model counts the calls of \<open>pfs_malloc\<close> and
  keeps the set of blocks that are allocated and not yet freed. A block is named by the
  number of the call that returned it, so two blocks never share a name. Whether a call
  succeeds is decided by an oracle \<open>orc\<close>: \<open>orc n\<close> says that call number \<open>n\<close> finds memory.
\<close>

record heap =
  calls :: nat
  live :: "nat set"

definition heap0 :: heap where
  "heap0 = \<lparr>calls = 0, live = {}\<rparr>"

text \<open>
  Modelled from the spec: \<open>pfs_malloc\<close> and \<open>pfs_free\<close> are declared in
  \<open>pfs_private.h\<close>, which is not among the sources. The spec only says that an
  allocation may fail (the callers test the result against \<open>NULL\<close>) and that released
  state is gone.
\<close>

definition pfs_malloc :: "(nat \<Rightarrow> bool) \<Rightarrow> heap \<Rightarrow> nat option \<times> heap" where
  "pfs_malloc orc h =
     (if orc (calls h)
      then (Some (calls h), \<lparr>calls = Suc (calls h), live = insert (calls h) (live h)\<rparr>)
      else (None, \<lparr>calls = Suc (calls h), live = live h\<rparr>))"

definition pfs_free :: "nat \<Rightarrow> heap \<Rightarrow> heap" where
  "pfs_free a h = h\<lparr>live := live h - {a}\<rparr>"

definition heap_ok :: "heap \<Rightarrow> bool" where
  "heap_ok h \<longleftrightarrow> (\<forall>a \<in> live h. a < calls h)"

section \<open>Path names (pname.c)\<close>

text \<open>
  A \<open>PNAME\<close> node holds the links of a circular doubly linked list, a pointer \<open>name\<close> into
  one of the input strings and the length \<open>len\<close> of the segment that starts there. The
  model keeps the block of the node and the \<open>len\<close> characters that \<open>name\<close> points at. The
  circular list under a sentinel is the list of its nodes from \<open>pn->next\<close> round to
  \<open>pn->prev\<close>; the sentinel itself is its block. A C string is the list of its characters
  before the terminating NUL, so \<open>strlen\<close> is \<open>length\<close> and reading the terminator is
  reading past the end of the list.
\<close>

record PNAME =
  blk :: nat
  name :: string

datatype fault = OutOfMemory | BufferOverrun

definition is_sep :: "char \<Rightarrow> bool" where
  "is_sep c \<longleftrightarrow> c = CHR ''/'' \<or> c = CHR 0x5C"

definition rootdir :: string where
  "rootdir = ''/''"

text \<open>\<open>pname_clean\<close> frees every node of the list and leaves the sentinel alone.\<close>

definition pname_clean :: "PNAME list \<Rightarrow> heap \<Rightarrow> PNAME list \<times> heap" where
  "pname_clean pn h = ([], fold (\<lambda>pe. pfs_free (blk pe)) pn h)"

definition pname_delete :: "nat \<Rightarrow> PNAME list \<Rightarrow> heap \<Rightarrow> heap" where
  "pname_delete a pn h = pfs_free a (snd (pname_clean pn h))"

text \<open>\<open>pname_link\<close> puts the node before the sentinel, which is the tail of the list.\<close>

definition pname_link :: "PNAME list \<Rightarrow> PNAME \<Rightarrow> PNAME list" where
  "pname_link pn pe = pn @ [pe]"

text \<open>
  The main loop of \<open>pname_scan\<close>. The pointer \<open>ps1\<close> is the rest of the string from
  \<open>ps1\<close> on. A segment is taken up to the next separator or the end, and \<open>ps1\<close> goes one
  past it. When the segment ends the string, that is one past the terminator: the C code
  then reads a byte outside the string before the test \<open>ps1 >= pend\<close> ends the loop,
  whatever that byte is. In the model the rest is empty there, and the loop ends as well.
\<close>

function scan_loop :: "(nat \<Rightarrow> bool) \<Rightarrow> string \<Rightarrow> PNAME list \<Rightarrow> heap \<Rightarrow> bool \<times> PNAME list \<times> heap" where
  "scan_loop orc ps pn h =
     (let ps1 = dropWhile is_sep ps in
      if ps1 = [] then (True, pn, h)
      else
        let nm = takeWhile (\<lambda>c. \<not> is_sep c) ps1;
            ps2 = dropWhile (\<lambda>c. \<not> is_sep c) ps1
        in if 1 < length nm \<or> hd ps1 \<noteq> CHR ''.''
           then (case pfs_malloc orc h of
                   (None, h') \<Rightarrow> (False, pn, h')
                 | (Some a, h') \<Rightarrow>
                     scan_loop orc (drop 1 ps2) (pname_link pn \<lparr>blk = a, name = nm\<rparr>) h')
           else scan_loop orc (drop 1 ps2) pn h)"
  by pat_completeness auto

lemma scan_loop_measure:
  "dropWhile is_sep ps \<noteq> [] \<Longrightarrow>
   length (drop 1 (dropWhile (\<lambda>c. \<not> is_sep c) (dropWhile is_sep ps))) < length ps"
proof -
  assume ne: "dropWhile is_sep ps \<noteq> []"
  then have "\<not> is_sep (hd (dropWhile is_sep ps))"
    by (rule hd_dropWhile)
  with ne have "dropWhile (\<lambda>c. \<not> is_sep c) (dropWhile is_sep ps) =
                dropWhile (\<lambda>c. \<not> is_sep c) (tl (dropWhile is_sep ps))"
    by (cases "dropWhile is_sep ps") auto
  moreover have "length (dropWhile (\<lambda>c. \<not> is_sep c) (tl (dropWhile is_sep ps)))
                 \<le> length (tl (dropWhile is_sep ps))"
    by (rule length_dropWhile_le)
  moreover from ne have "length (tl (dropWhile is_sep ps)) < length (dropWhile is_sep ps)"
    by simp
  moreover have "length (dropWhile is_sep ps) \<le> length ps"
    by (rule length_dropWhile_le)
  ultimately show ?thesis by simp
qed

lemma scan_loop_measure':
  "\<exists>c \<in> set ps. \<not> is_sep c \<Longrightarrow>
   length (dropWhile (\<lambda>c. \<not> is_sep c) (dropWhile is_sep ps)) - Suc 0 < length ps"
  using scan_loop_measure [of ps] by (simp add: dropWhile_eq_Nil_conv)

termination scan_loop
  by (relation "measure (\<lambda>(orc, ps, pn, h). length ps)")
     (auto intro!: scan_loop_measure')

declare scan_loop.simps [simp del]

definition pname_scan :: "(nat \<Rightarrow> bool) \<Rightarrow> string \<Rightarrow> PNAME list \<Rightarrow> heap \<Rightarrow> bool \<times> PNAME list \<times> heap" where
  "pname_scan orc psPath pn h =
     (if psPath \<noteq> [] \<and> is_sep (hd psPath)
      then (case pfs_malloc orc h of
              (None, h') \<Rightarrow> (False, pn, h')
            | (Some a, h') \<Rightarrow>
                scan_loop orc (tl psPath) (pname_link pn \<lparr>blk = a, name = rootdir\<rparr>) h')
      else scan_loop orc psPath pn h)"

definition pname_create :: "(nat \<Rightarrow> bool) \<Rightarrow> string \<Rightarrow> heap \<Rightarrow> (nat \<times> PNAME list) option \<times> heap" where
  "pname_create orc psPath h =
     (case pfs_malloc orc h of
        (None, h1) \<Rightarrow> (None, h1)
      | (Some a, h1) \<Rightarrow>
          (case pname_scan orc psPath [] h1 of
             (ok, pn, h2) \<Rightarrow>
               if \<not> ok then (None, pname_delete a pn h2) else (Some (a, pn), h2)))"

text \<open>
  \<open>pname_join\<close> takes the nodes of the second list off its front one by one:
  \<open>pname_unlink\<close> of \<open>pn2->next\<close> leaves the tail of the second list, and
  \<open>pname_unlink\<close> of \<open>pn1->prev\<close> leaves the first list without its last node. The
  test for \<open>".."\<close> reads \<open>len\<close>, \<open>name[0]\<close> and \<open>name[1]\<close>; the tests for the root
  read \<open>name[0]\<close>. Every node made by \<open>pname_scan\<close> has \<open>len \<ge> 1\<close>.
\<close>

definition is_dotdot :: "PNAME \<Rightarrow> bool" where
  "is_dotdot pe \<longleftrightarrow>
     length (name pe) = 2 \<and> name pe ! 0 = CHR ''.'' \<and> name pe ! 1 = CHR ''.''"

fun pname_join :: "PNAME list \<Rightarrow> PNAME list \<Rightarrow> heap \<Rightarrow> PNAME list \<times> PNAME list \<times> heap" where
  "pname_join pn1 [] h = (pn1, [], h)"
| "pname_join pn1 (pe2 # pn2) h =
     (if is_dotdot pe2
      then (if pn1 \<noteq> [] \<and> hd (name (last pn1)) \<noteq> CHR ''/''
            then pname_join (butlast pn1) pn2 (pfs_free (blk pe2) (pfs_free (blk (last pn1)) h))
            else pname_join pn1 pn2 (pfs_free (blk pe2) h))
      else (if hd (name pe2) = CHR ''/''
            then (case pname_clean pn1 h of
                    (pn1', h') \<Rightarrow> pname_join (pname_link pn1' pe2) pn2 h')
            else pname_join (pname_link pn1 pe2) pn2 h))"

text \<open>
  \<open>pname_mkname\<close> adds up \<open>len + 1\<close> over the nodes, allocates \<open>nlen + 1\<close> bytes and
  writes into them. The buffer of the model is the list of the characters written so
  far, so \<open>ps == psName\<close> is the empty list. With the terminator the code writes
  \<open>length ps + 1\<close> bytes; when that is more than the block holds, the last write is
  outside the block, and the model returns \<open>BufferOverrun\<close>.
\<close>

definition mkname_nlen :: "PNAME list \<Rightarrow> nat" where
  "mkname_nlen pn = fold (\<lambda>pe nlen. nlen + (length (name pe) + 1)) pn 0"

definition mkname_copy :: "PNAME list \<Rightarrow> string" where
  "mkname_copy pn =
     fold (\<lambda>pe ps. if hd (name pe) \<noteq> CHR ''/'' then ps @ [CHR ''/''] @ name pe else ps) pn []"

definition pname_mkname :: "(nat \<Rightarrow> bool) \<Rightarrow> PNAME list \<Rightarrow> heap \<Rightarrow> (fault + string) \<times> heap" where
  "pname_mkname orc pn h =
     (let nlen = mkname_nlen pn in
      case pfs_malloc orc h of
        (None, h') \<Rightarrow> (Inl OutOfMemory, h')
      | (Some a, h') \<Rightarrow>
          (let ps = mkname_copy pn;
               ps' = (if ps = [] then [CHR ''/''] else ps)
           in if length ps' + 1 \<le> nlen + 1 then (Inr ps', h') else (Inl BufferOverrun, h')))"

definition pname_append :: "(nat \<Rightarrow> bool) \<Rightarrow> string \<Rightarrow> string \<Rightarrow> heap \<Rightarrow> (fault + string) \<times> heap" where
  "pname_append orc psPath1 psPath2 h =
     (case pname_create orc psPath1 h of
        (None, h1) \<Rightarrow> (Inl OutOfMemory, h1)
      | (Some (a1, pn1), h1) \<Rightarrow>
          (case pname_create orc psPath2 h1 of
             (None, h2) \<Rightarrow> (Inl OutOfMemory, pname_delete a1 pn1 h2)
           | (Some (a2, pn2), h2) \<Rightarrow>
               (case pname_join pn1 pn2 h2 of
                  (pn1', pn2', h3) \<Rightarrow>
                    (case pname_mkname orc pn1' h3 of
                       (ps, h4) \<Rightarrow> (ps, pname_delete a2 pn2' (pname_delete a1 pn1' h4))))))"

subsection \<open>The spec's account of joining two paths\<close>

text \<open>
  The spec decomposes each input into the non-empty pieces between runs of separators,
  drops the pieces that are a single dot and puts the root segment in front when the
  input begins with a separator. \<open>split_on\<close> cuts at every single separator, so a run of
  separators gives empty pieces, which \<open>segments\<close> drops.
\<close>

fun split_on :: "string \<Rightarrow> string list" where
  "split_on [] = [[]]"
| "split_on (c # cs) =
     (if is_sep c then [] # split_on cs
      else (c # hd (split_on cs)) # tl (split_on cs))"

definition pieces :: "string \<Rightarrow> string list" where
  "pieces s = filter (\<lambda>w. w \<noteq> [] \<and> w \<noteq> ''.'') (split_on s)"

definition segments :: "string \<Rightarrow> string list" where
  "segments s = (if s \<noteq> [] \<and> is_sep (hd s) then [rootdir] else []) @ pieces s"

text \<open>The rule of the spec for one incoming segment of the addition.\<close>

definition relink :: "string list \<Rightarrow> string \<Rightarrow> string list" where
  "relink base seg =
     (if seg = rootdir then [seg]
      else if seg = ''..''
           then (if base \<noteq> [] \<and> last base \<noteq> rootdir then butlast base else base)
      else base @ [seg])"

definition survivors :: "string \<Rightarrow> string \<Rightarrow> string list" where
  "survivors base addition = foldl relink (segments base) (segments addition)"

text \<open>
  The serialization as the spec words it: the segments other than the root with a
  separator between them, a leading separator only when the root is there, and \<open>/\<close>
  for the empty list.
\<close>

fun between :: "string list \<Rightarrow> string" where
  "between [] = []"
| "between [w] = w"
| "between (w # ws) = w @ CHR ''/'' # between ws"

definition serialize_spec :: "string list \<Rightarrow> string" where
  "serialize_spec segs =
     (if segs = [] then ''/''
      else (if rootdir \<in> set segs then ''/'' else []) @
           between (filter (\<lambda>w. w \<noteq> rootdir) segs))"

text \<open>
  The serialization that \<open>pname_mkname\<close> computes: every segment other than the root
  with a separator in front of it, and \<open>/\<close> when that leaves nothing.
\<close>

definition slashed :: "string list \<Rightarrow> string" where
  "slashed segs = concat (map (\<lambda>w. CHR ''/'' # w) (filter (\<lambda>w. w \<noteq> rootdir) segs))"

definition serialize :: "string list \<Rightarrow> string" where
  "serialize segs = (if slashed segs = [] then ''/'' else slashed segs)"

definition to_slash :: "char \<Rightarrow> char" where
  "to_slash c = (if c = CHR 0x5C then CHR ''/'' else c)"

subsection \<open>Predicates used in the proofs\<close>

text \<open>
  A segment is well formed when it is the root or a non-empty string without a
  separator. Every segment that \<open>pname_scan\<close> makes is of this kind.
\<close>

definition seg_ok :: "string \<Rightarrow> bool" where
  "seg_ok w \<longleftrightarrow> w = rootdir \<or> (w \<noteq> [] \<and> (\<forall>c \<in> set w. \<not> is_sep c))"

text \<open>
  What a scan does to the list and to the heap: it appends nodes, every new block is one
  of the calls made in between, and the scan fails exactly when one of these calls found
  no memory. \<open>ws\<close> are the names of the new nodes when the scan succeeds.
\<close>

definition scan_post ::
  "(nat \<Rightarrow> bool) \<Rightarrow> string list \<Rightarrow> PNAME list \<Rightarrow> heap \<Rightarrow> bool \<Rightarrow> PNAME list \<Rightarrow> heap \<Rightarrow> bool" where
  "scan_post orc ws pn h ok pn' h' \<longleftrightarrow>
     (\<exists>nodes. pn' = pn @ nodes \<and> calls h \<le> calls h' \<and>
        live h' = live h \<union> blk ` set nodes \<and>
        (\<forall>pe \<in> set nodes. calls h \<le> blk pe \<and> blk pe < calls h') \<and>
        (ok \<longrightarrow> (\<forall>n. calls h \<le> n \<and> n < calls h' \<longrightarrow> orc n) \<and> map name nodes = ws) \<and>
        (\<not> ok \<longrightarrow> (\<exists>n. calls h \<le> n \<and> n < calls h' \<and> \<not> orc n)))"

definition create_post ::
  "(nat \<Rightarrow> bool) \<Rightarrow> string \<Rightarrow> heap \<Rightarrow> (nat \<times> PNAME list) option \<Rightarrow> heap \<Rightarrow> bool" where
  "create_post orc p h r h' \<longleftrightarrow>
     calls h < calls h' \<and>
     (case r of
        None \<Rightarrow> live h' = live h \<and> (\<exists>n. calls h \<le> n \<and> n < calls h' \<and> \<not> orc n)
      | Some (a, pn) \<Rightarrow>
          live h' = live h \<union> insert a (blk ` set pn) \<and>
          calls h \<le> a \<and> a < calls h' \<and>
          (\<forall>pe \<in> set pn. calls h \<le> blk pe \<and> blk pe < calls h') \<and>
          (\<forall>n. calls h \<le> n \<and> n < calls h' \<longrightarrow> orc n) \<and>
          map name pn = segments p)"

section \<open>The flash file system (pfs_ffs.c)\<close>

text \<open>
  \<open>pfs_ffs_create\<close> calls \<open>lfs_mount\<close> and \<open>lfs_format\<close> of the littlefs library, which
  is not part of this repository. Both are parameters of the model: each takes the state
  of the device and of the library, and returns its \<open>int\<close> result and the new state. The
  model also returns the list of the library calls that were made, in order.
\<close>

datatype lfs_call = LfsMount | LfsFormat

definition pfs_ffs_create ::
  "(nat \<Rightarrow> bool) \<Rightarrow> ('d \<Rightarrow> int \<times> 'd) \<Rightarrow> ('d \<Rightarrow> int \<times> 'd) \<Rightarrow> 'd \<Rightarrow> heap \<Rightarrow>
   nat option \<times> lfs_call list \<times> 'd \<times> heap" where
  "pfs_ffs_create orc lfs_mount lfs_format dev h =
     (case pfs_malloc orc h of
        (None, h1) \<Rightarrow> (None, [], dev, h1)
      | (Some ffs, h1) \<Rightarrow>
          (case lfs_mount dev of
             (r, dev1) \<Rightarrow>
               (case (if r < 0
                      then (case lfs_format dev1 of
                              (rf, dev2) \<Rightarrow>
                                if rf = 0
                                then (case lfs_mount dev2 of
                                        (rm, dev3) \<Rightarrow> (rm, dev3, [LfsMount, LfsFormat, LfsMount]))
                                else (rf, dev2, [LfsMount, LfsFormat]))
                      else (r, dev1, [LfsMount])) of
                  (r', dev', tr) \<Rightarrow>
                    if r' < 0 then (None, tr, dev', pfs_free ffs h1)
                    else (Some ffs, tr, dev', h1))))"

section \<open>The UART device (pfs_dev_uart.c)\<close>

text \<open>
  The mode bits and the parity codes come from headers that are not among the sources
  (\<open>pfs_dev_uart.h\<close> and the SDK), so they are parameters: \<open>ioc\<close> holds the values of
  the \<open>IOC_MD_\<close> macros. An \<open>int\<close> of the C code is an integer of HOL; \<open>&\<close> on it is
  \<open>AND\<close>, which agrees with C on every value of 32 bits, negative ones included. The
  two indices stay between 0 and 511, so no addition overflows. A \<open>char\<close> is a byte, read
  as unsigned when it is compared with an \<open>int\<close>, as the ARM ABI of the Pico has it.
\<close>

type_synonym byte = "8 word"

record ioc =
  IOC_MD_ECHO :: int
  IOC_MD_NBLOCK :: int
  IOC_MD_ANY :: int
  IOC_MD_TLF :: int
  IOC_MD_CHR :: int
  IOC_MD_CR :: int

definition NDATA :: int where
  "NDATA = 512"

text \<open>
  The fields \<open>open\<close> and \<open>ucs\<close> of the C struct (a function pointer and the critical
  section) are left out; \<open>uart\<close> is the number of the peripheral.
\<close>

record pfs_dev_uart =
  uart :: int
  mode :: int
  tout :: nat
  rptr :: int
  wptr :: int
  data :: "byte list"

text \<open>
  The peripheral, as far as the driver sees it: the bytes in its receive FIFO, the bytes
  it was given to send, the request to send line and the receive interrupt mask. \<open>line\<close>
  is what the outside world does while \<open>uart_read\<close> spins: for every pass of the wait
  loop, whether the deadline has passed at that moment, and the bytes that have arrived
  since the pass before. The interrupt handler runs the same \<open>uart_input\<close> as the polls
  do; its runs are not modelled apart from them.
\<close>

record uart_hw =
  rx_fifo :: "byte list"
  tx_out :: "byte list"
  hw_rts :: bool
  hw_rxim :: bool
  line :: "(bool \<times> byte list) list"

text \<open>
  The states that the driver keeps the device in: both indices within the buffer, and
  the buffer of \<open>NDATA\<close> bytes. \<open>uopen\<close> and the purge request set both indices to 0,
  and every other write of an index masks it with \<open>NDATA - 1\<close>.
\<close>

definition dev_ok :: "pfs_dev_uart \<Rightarrow> bool" where
  "dev_ok pud \<longleftrightarrow>
     0 \<le> rptr pud \<and> rptr pud < NDATA \<and> 0 \<le> wptr pud \<and> wptr pud < NDATA \<and>
     int (length (data pud)) = NDATA"

text \<open>
  The loop of \<open>uart_input\<close>. The source writes \<open>pud->wptr = (++pud->wptr) & (NDATA - 1)\<close>,
  which is the index plus one, masked.
\<close>

function uart_input_loop :: "ioc \<Rightarrow> int \<Rightarrow> pfs_dev_uart \<times> uart_hw \<Rightarrow> pfs_dev_uart \<times> uart_hw" where
  "uart_input_loop c wend (pud, hw) =
     (if wptr pud \<noteq> wend \<and> rx_fifo hw \<noteq> []
      then
        (let pud1 = pud\<lparr>data := (data pud)[nat (wptr pud) := hd (rx_fifo hw)]\<rparr>;
             hw1 = hw\<lparr>rx_fifo := tl (rx_fifo hw)\<rparr>;
             hw2 = (if mode pud1 AND IOC_MD_ECHO c \<noteq> 0
                    then hw1\<lparr>tx_out := tx_out hw1 @ [data pud1 ! nat (wptr pud1)]\<rparr>
                    else hw1);
             pud2 = pud1\<lparr>wptr := (wptr pud1 + 1) AND (NDATA - 1)\<rparr>
         in uart_input_loop c wend (pud2, hw2))
      else (pud, hw))"
  by pat_completeness auto
termination
  by (relation "measure (\<lambda>(c, wend, pud, hw). length (rx_fifo hw))") (auto simp: Let_def)

declare uart_input_loop.simps [simp del]

definition uart_input :: "ioc \<Rightarrow> pfs_dev_uart \<times> uart_hw \<Rightarrow> pfs_dev_uart \<times> uart_hw" where
  "uart_input c st =
     (let wend = (rptr (fst st) - 1) AND (NDATA - 1) in
      case uart_input_loop c wend st of
        (pud, hw) \<Rightarrow>
          if wptr pud = wend then (pud, hw\<lparr>hw_rts := False, hw_rxim := False\<rparr>)
          else (pud, hw))"









text \<open>
  The SDK of the Pico is not part of this repository either. \<open>sdk\<close> holds what the
  driver needs from it: the results of \<open>uart_init\<close> and \<open>uart_set_baudrate\<close> (the baud
  rate really set) and the three parity codes. The calls that change the hardware are
  recorded in order.
\<close>

record sdk =
  uart_init :: "int \<Rightarrow> int \<Rightarrow> int"
  uart_set_baudrate :: "int \<Rightarrow> int \<Rightarrow> int"
  UART_PARITY_NONE :: int
  UART_PARITY_EVEN :: int
  UART_PARITY_ODD :: int

datatype sdk_call =
    Critical_section_init int
  | Critical_section_deinit int
  | Uart_init int int
  | Uart_deinit int
  | Gpio_set_function int
  | Uart_set_hw_flow int bool bool
  | Irq_set_exclusive_handler int
  | Irq_set_enabled int bool
  | Hw_clear_ifls int
  | Hw_set_cr_rts int
  | Hw_set_imsc_rxim int
  | Uart_set_baudrate int int
  | Uart_set_format int int int int
  | Uart_set_irq_enables int bool bool

record SERIAL_CONFIG =
  sc_baud :: int
  sc_data :: int
  sc_stop :: int
  sc_parity :: int
  sc_tx :: int
  sc_rx :: int
  sc_cts :: int
  sc_rts :: int

datatype errno = EINVAL | ENOMEM

text \<open>
  The request of \<open>uart_ioctl\<close> with what \<open>argp\<close> points at; the labels of a \<open>switch\<close> are
  distinct. The output is what the call stores through \<open>argp\<close>.
\<close>

datatype ioctl_req =
    IOC_RQ_MODE int
  | IOC_RQ_PURGE
  | IOC_RQ_COUNT
  | IOC_RQ_TOUT int
  | IOC_RQ_SCFG SERIAL_CONFIG
  | IOC_RQ_OTHER

datatype ioctl_out = OutNone | OutInt int | OutConfig SERIAL_CONFIG

definition uart_ioctl ::
  "sdk \<Rightarrow> ioctl_req \<Rightarrow> pfs_dev_uart \<times> sdk_call list \<Rightarrow>
   (errno + ioctl_out) \<times> pfs_dev_uart \<times> sdk_call list" where
  "uart_ioctl k request st =
     (case st of (pud, t) \<Rightarrow>
        (case request of
           IOC_RQ_MODE m \<Rightarrow> (Inr OutNone, pud\<lparr>mode := m\<rparr>, t)
         | IOC_RQ_PURGE \<Rightarrow> (Inr OutNone, pud\<lparr>rptr := 0, wptr := 0\<rparr>, t)
         | IOC_RQ_COUNT \<Rightarrow> (Inr (OutInt ((wptr pud - rptr pud) AND (NDATA - 1))), pud, t)
         | IOC_RQ_TOUT v \<Rightarrow> (Inr OutNone, pud\<lparr>tout := nat (v mod 2 ^ 32)\<rparr>, t)
         | IOC_RQ_SCFG sc \<Rightarrow>
             if sc_data sc < 5 \<or> sc_data sc > 8 then (Inl EINVAL, pud, t)
             else if sc_stop sc < 1 \<or> sc_stop sc > 2 then (Inl EINVAL, pud, t)
             else if sc_parity sc \<noteq> UART_PARITY_NONE k \<and> sc_parity sc \<noteq> UART_PARITY_EVEN k \<and>
                     sc_parity sc \<noteq> UART_PARITY_ODD k then (Inl EINVAL, pud, t)
             else
               (let sc' = (if sc_baud sc \<noteq> 0
                           then sc\<lparr>sc_baud := uart_set_baudrate k (uart pud) (sc_baud sc)\<rparr>
                           else sc);
                    t1 = (if sc_baud sc \<noteq> 0
                          then t @ [Uart_set_baudrate (uart pud) (sc_baud sc)] else t)
                in (Inr (OutConfig sc'), pud,
                    t1 @ [Uart_set_format (uart pud) (sc_data sc) (sc_stop sc) (sc_parity sc)]))
         | IOC_RQ_OTHER \<Rightarrow> (Inl EINVAL, pud, t)))"

definition uart_pin_valid :: "int \<Rightarrow> int \<Rightarrow> int \<Rightarrow> bool" where
  "uart_pin_valid uid func pin =
     (if pin < 0 \<or> pin > 29 then False
      else
        (let pin' = pin - func in
         if uid = 0 then pin' = 0 \<or> pin' = 12 \<or> pin' = 16 \<or> pin' = 28
         else if uid = 1 then pin' = 4 \<or> pin' = 8 \<or> pin' = 20 \<or> pin' = 24
         else False))"

text \<open>
  \<open>uopen\<close> has the return type \<open>bool\<close>, and every \<open>return\<close> in it is a \<open>return false\<close>:
  when nothing fails, control reaches the end of the function and no value is
  returned. That outcome is \<open>None\<close>.
\<close>

definition uopen ::
  "sdk \<Rightarrow> int \<Rightarrow> SERIAL_CONFIG \<Rightarrow> pfs_dev_uart \<Rightarrow> sdk_call list \<Rightarrow>
   bool option \<times> pfs_dev_uart \<times> sdk_call list" where
  "uopen k uid sc pud0 t0 =
     (let pud = pud0\<lparr>uart := uid, rptr := 0, wptr := 0\<rparr>;
          t1 = t0 @ [Critical_section_init uid, Uart_init uid (sc_baud sc)]
      in
      if uart_init k uid (sc_baud sc) = 0 then (Some False, pud, t1)
      else if 0 \<le> sc_tx sc \<and> \<not> uart_pin_valid uid 0 (sc_tx sc) then (Some False, pud, t1)
      else
        (let t2 = (if 0 \<le> sc_tx sc then t1 @ [Gpio_set_function (sc_tx sc)] else t1) in
         if 0 \<le> sc_rx sc \<and> \<not> uart_pin_valid uid 1 (sc_rx sc) then (Some False, pud, t2)
         else
           (let t3 = (if 0 \<le> sc_rx sc then t2 @ [Gpio_set_function (sc_rx sc)] else t2) in
            if 0 \<le> sc_cts sc \<and> \<not> uart_pin_valid uid 2 (sc_cts sc) then (Some False, pud, t3)
            else
              (let t4 = (if 0 \<le> sc_cts sc
                         then t3 @ [Gpio_set_function (sc_cts sc), Uart_set_hw_flow uid True False]
                         else t3 @ [Uart_set_hw_flow uid False False])
               in
               if 0 \<le> sc_rts sc \<and> \<not> uart_pin_valid uid 3 (sc_rts sc) then (Some False, pud, t4)
               else
                 (let t5 = (if 0 \<le> sc_rts sc then t4 @ [Gpio_set_function (sc_rts sc)] else t4);
                      irq = (if uid = 0 then 0 else 1);
                      t6 = t5 @ [Irq_set_exclusive_handler irq, Irq_set_enabled irq True,
                                 Hw_clear_ifls uid, Hw_set_cr_rts uid, Hw_set_imsc_rxim uid]
                  in
                  if sc_data sc < 5 \<or> sc_data sc > 8 then (Some False, pud, t6)
                  else if sc_stop sc < 1 \<or> sc_stop sc > 2 then (Some False, pud, t6)
                  else if sc_parity sc \<noteq> UART_PARITY_NONE k \<and>
                          sc_parity sc \<noteq> UART_PARITY_EVEN k \<and>
                          sc_parity sc \<noteq> UART_PARITY_ODD k then (Some False, pud, t6)
                  else (None, pud,
                        t6 @ [Uart_set_format uid (sc_data sc) (sc_stop sc) (sc_parity sc),
                              Uart_set_irq_enables uid True False]))))))"

text \<open>
  The array \<open>uart_dev\<close> holds for each of the two peripherals the block of its device
  and what is in it, or \<open>NULL\<close>. \<open>uclose\<close> reads the entry without a test, so with
  \<open>NULL\<close> there it dereferences a null pointer, which is the result \<open>None\<close>.
\<close>

type_synonym uart_devs = "int \<Rightarrow> (nat \<times> pfs_dev_uart) option"

definition uclose :: "int \<Rightarrow> uart_devs \<Rightarrow> sdk_call list \<Rightarrow> sdk_call list option" where
  "uclose uid uart_dev t =
     (if uid < 0 \<or> uid > 1 then Some t
      else (case uart_dev uid of
              None \<Rightarrow> None
            | Some (a, pud) \<Rightarrow> Some (t @ [Uart_deinit (uart pud), Critical_section_deinit uid])))"

text \<open>
  \<open>pfs_dev_uart_create\<close>. \<open>fresh\<close> is what the new block holds before it is written,
  and \<open>noval\<close> is what the caller reads as the result of \<open>uopen\<close> when \<open>uopen\<close> returned
  no value. Where it calls \<open>uclose\<close>, the entry of the array is the new device, so
  \<open>uclose\<close> does not fail there.
\<close>

definition pfs_dev_uart_create ::
  "sdk \<Rightarrow> ioc \<Rightarrow> (nat \<Rightarrow> bool) \<Rightarrow> bool \<Rightarrow> pfs_dev_uart \<Rightarrow> int \<Rightarrow> SERIAL_CONFIG \<Rightarrow>
   uart_devs \<times> heap \<times> sdk_call list \<Rightarrow> nat option \<times> uart_devs \<times> heap \<times> sdk_call list" where
  "pfs_dev_uart_create k c orc noval fresh uid sc st =
     (case st of (uart_dev, h, t) \<Rightarrow>
        if uid < 0 \<or> uid > 1 then (None, uart_dev, h, t)
        else
          (case uart_dev uid of
             Some (a, pud) \<Rightarrow>
               (case uopen k uid sc pud t of
                  (r, pud', t') \<Rightarrow> (Some a, uart_dev(uid \<mapsto> (a, pud')), h, t'))
           | None \<Rightarrow>
               (case pfs_malloc orc h of
                  (None, h1) \<Rightarrow> (None, uart_dev, h1, t)
                | (Some a, h1) \<Rightarrow>
                    (let pud0 = fresh\<lparr>mode := IOC_MD_CR c OR IOC_MD_TLF c, tout := 0\<rparr> in
                     case uopen k uid sc pud0 t of
                       (r, pud', t') \<Rightarrow>
                         if (case r of Some b \<Rightarrow> b | None \<Rightarrow> noval)
                         then (Some a, uart_dev(uid \<mapsto> (a, pud')), h1, t')
                         else (None, uart_dev(uid := None), pfs_free a h1,
                               (case uclose uid (uart_dev(uid \<mapsto> (a, pud'))) t' of
                                  Some t'' \<Rightarrow> t''
                                | None \<Rightarrow> t'))))))"

subsection \<open>What the ring buffer holds\<close>

text \<open>
  \<open>pending_count\<close> is the number that the request \<open>IOC_RQ_COUNT\<close> reports, and
  \<open>pending\<close> the bytes in the buffer that have not been read, oldest first. \<open>stream\<close>
  is every byte that a read can still get: those in the buffer, those in the FIFO of
  the peripheral and those that the line will bring. \<open>stored\<close> is what ends up in the
  caller's buffer when the bytes \<open>raw\<close> have been taken out of the ring buffer and only
  the last of them can be the terminator.
\<close>

definition pending_count :: "pfs_dev_uart \<Rightarrow> int" where
  "pending_count pud = (wptr pud - rptr pud) AND (NDATA - 1)"

definition pending :: "pfs_dev_uart \<Rightarrow> byte list" where
  "pending pud =
     map (\<lambda>i. data pud ! nat ((rptr pud + int i) mod NDATA)) [0..<nat (pending_count pud)]"


definition stored :: "ioc \<Rightarrow> pfs_dev_uart \<Rightarrow> byte list \<Rightarrow> byte list" where
  "stored c pud raw =
     (if raw \<noteq> [] \<and> uint (last raw) = mode pud AND 0xFF
      then butlast raw @ [if mode pud AND IOC_MD_TLF c \<noteq> 0 then 0x0A else last raw]
      else raw)"

text \<open>
  The pins that a configuration asks for, in the order in which \<open>uopen\<close> handles them,
  each with its function number, and the pins that a list of SDK calls has set to the
  UART function.
\<close>

definition requested :: "SERIAL_CONFIG \<Rightarrow> (int \<times> int) list" where
  "requested sc =
     filter (\<lambda>(pin, func). 0 \<le> pin) [(sc_tx sc, 0), (sc_rx sc, 1), (sc_cts sc, 2), (sc_rts sc, 3)]"

fun committed :: "sdk_call list \<Rightarrow> int list" where
  "committed [] = []"
| "committed (Gpio_set_function pin # t) = pin # committed t"
| "committed (x # t) = committed t"

subsection \<open>Values for the instances\<close>

text \<open>
  A possible assignment of the mode bits and of the SDK's results and parity codes, a
  configuration whose receive pin is not one of UART 0, and a device whose buffer holds
  \<open>a\<close>, \<open>b\<close>, carriage return and \<open>c\<close> across the wrap-around, with carriage return as
  the terminator and newline translation on.
\<close>

definition sdk_ex :: sdk where
  "sdk_ex = \<lparr>uart_init = (\<lambda>uid baud. baud), uart_set_baudrate = (\<lambda>uid baud. baud),
           UART_PARITY_NONE = 0, UART_PARITY_EVEN = 1, UART_PARITY_ODD = 2\<rparr>"

definition pud_ex :: pfs_dev_uart where
  "pud_ex = \<lparr>uart = 0, mode = 0, tout = 0, rptr = 3, wptr = 5, data = replicate 512 0\<rparr>"

definition sc_ex :: SERIAL_CONFIG where
  "sc_ex = \<lparr>sc_baud = 115200, sc_data = 8, sc_stop = 1, sc_parity = 0,
          sc_tx = 0, sc_rx = 2, sc_cts = - 1, sc_rts = - 1\<rparr>"

definition ioc_ex :: ioc where
  "ioc_ex = \<lparr>IOC_MD_ECHO = 0x100, IOC_MD_NBLOCK = 0x200, IOC_MD_ANY = 0x400,
           IOC_MD_TLF = 0x800, IOC_MD_CHR = 0x1000, IOC_MD_CR = 0x100D\<rparr>"

definition ring_ex :: pfs_dev_uart where
  "ring_ex = \<lparr>uart = 0, mode = 0x180D, tout = 0, rptr = 510, wptr = 2,
           data = [0x0D, 0x63] @ replicate 508 0 @ [0x61, 0x62]\<rparr>"

definition hw_ex :: uart_hw where
  "hw_ex = \<lparr>rx_fifo = [0x64, 0x65, 0x66], tx_out = [], hw_rts = True, hw_rxim = True, line = []\<rparr>"

section \<open>Properties of the path code\<close>

subsection \<open>Scanning\<close>

lemma split_on_ne [simp]: "split_on s \<noteq> []"
  by (induction s) auto

lemma pieces_Nil [simp]: "pieces [] = []"
  by (simp add: pieces_def)

lemma pieces_sep: "is_sep c \<Longrightarrow> pieces (c # cs) = pieces cs"
  by (simp add: pieces_def)

lemma pieces_dropWhile: "pieces (dropWhile is_sep s) = pieces s"
  by (induction s) (auto simp: pieces_sep)

lemma split_on_take_drop:
  "split_on s = takeWhile (\<lambda>c. \<not> is_sep c) s #
     (case dropWhile (\<lambda>c. \<not> is_sep c) s of [] \<Rightarrow> [] | c # r \<Rightarrow> split_on r)"
  by (induction s) (auto split: list.splits)

lemma pieces_step:
  "pieces s = (let nm = takeWhile (\<lambda>c. \<not> is_sep c) s in
                 (if nm \<noteq> [] \<and> nm \<noteq> ''.'' then [nm] else []) @
                 pieces (drop 1 (dropWhile (\<lambda>c. \<not> is_sep c) s)))"
proof -
  define d where "d = dropWhile (\<lambda>c. \<not> is_sep c) s"
  define nm where "nm = takeWhile (\<lambda>c. \<not> is_sep c) s"
  have "split_on s = nm # (case d of [] \<Rightarrow> [] | c # r \<Rightarrow> split_on r)"
    unfolding d_def nm_def by (rule split_on_take_drop)
  then have "pieces s = (if nm \<noteq> [] \<and> nm \<noteq> ''.'' then [nm] else []) @ pieces (drop 1 d)"
    by (cases d) (simp_all add: pieces_def)
  then show ?thesis
    unfolding d_def nm_def Let_def .
qed

lemma scan_loop_done:
  "dropWhile is_sep ps = [] \<Longrightarrow> scan_loop orc ps pn h = (True, pn, h)"
  by (subst scan_loop.simps) simp

lemma scan_loop_skip:
  assumes "dropWhile is_sep ps \<noteq> []"
    and "takeWhile (\<lambda>c. \<not> is_sep c) (dropWhile is_sep ps) = ''.''"
  shows "scan_loop orc ps pn h =
         scan_loop orc (drop 1 (dropWhile (\<lambda>c. \<not> is_sep c) (dropWhile is_sep ps))) pn h"
proof -
  from assms have "hd (dropWhile is_sep ps) = CHR ''.''"
    by (cases "dropWhile is_sep ps") (auto split: if_splits)
  with assms show ?thesis
    by (subst scan_loop.simps) (auto simp add: Let_def)
qed

lemma takeWhile_nonsep_ne:
  assumes "dropWhile is_sep ps \<noteq> []"
  shows "takeWhile (\<lambda>c. \<not> is_sep c) (dropWhile is_sep ps) \<noteq> []"
proof -
  from assms have "\<not> is_sep (hd (dropWhile is_sep ps))" by (rule hd_dropWhile)
  with assms show ?thesis by (cases "dropWhile is_sep ps") auto
qed

lemma scan_loop_take:
  assumes "dropWhile is_sep ps \<noteq> []"
    and "takeWhile (\<lambda>c. \<not> is_sep c) (dropWhile is_sep ps) \<noteq> ''.''"
  shows "scan_loop orc ps pn h =
         (case pfs_malloc orc h of
            (None, h') \<Rightarrow> (False, pn, h')
          | (Some a, h') \<Rightarrow>
              scan_loop orc (drop 1 (dropWhile (\<lambda>c. \<not> is_sep c) (dropWhile is_sep ps)))
                (pname_link pn \<lparr>blk = a,
                   name = takeWhile (\<lambda>c. \<not> is_sep c) (dropWhile is_sep ps)\<rparr>) h')"
proof -
  define ps1 where "ps1 = dropWhile is_sep ps"
  define nm where "nm = takeWhile (\<lambda>c. \<not> is_sep c) ps1"
  have ne: "nm \<noteq> []" unfolding nm_def ps1_def using assms(1) by (rule takeWhile_nonsep_ne)
  have hd: "hd nm = hd ps1"
    using ne unfolding nm_def by (cases ps1) (auto split: if_splits)
  have "1 < length nm \<or> hd ps1 \<noteq> CHR ''.''"
  proof (rule ccontr)
    assume "\<not> ?thesis"
    then have "length nm \<le> 1" "hd nm = CHR ''.''" using hd by auto
    with ne have "nm = ''.''" by (cases nm) auto
    with assms(2) show False by (simp add: nm_def ps1_def)
  qed
  then show ?thesis
    using assms(1) unfolding nm_def ps1_def
    by (subst scan_loop.simps) (auto simp add: Let_def)
qed

lemma pfs_malloc_cases:
  obtains (ok) "orc (calls h)"
      "pfs_malloc orc h = (Some (calls h), \<lparr>calls = Suc (calls h), live = insert (calls h) (live h)\<rparr>)"
  | (fail) "\<not> orc (calls h)"
      "pfs_malloc orc h = (None, \<lparr>calls = Suc (calls h), live = live h\<rparr>)"
  by (cases "orc (calls h)") (simp_all add: pfs_malloc_def)

lemma scan_post_refl: "scan_post orc [] pn h True pn h"
  by (auto simp: scan_post_def)

lemma scan_post_fail:
  "\<not> orc (calls h) \<Longrightarrow> scan_post orc ws pn h False pn \<lparr>calls = Suc (calls h), live = live h\<rparr>"
  unfolding scan_post_def by (intro exI [of _ "[]"]) auto

lemma scan_post_cons:
  assumes "orc (calls h)"
    and "scan_post orc ws (pn @ [\<lparr>blk = calls h, name = w\<rparr>])
           \<lparr>calls = Suc (calls h), live = insert (calls h) (live h)\<rparr> ok pn' h'"
  shows "scan_post orc (w # ws) pn h ok pn' h'"
proof -
  from assms(2) obtain nodes where n:
    "pn' = (pn @ [\<lparr>blk = calls h, name = w\<rparr>]) @ nodes"
    "Suc (calls h) \<le> calls h'"
    "live h' = insert (calls h) (live h) \<union> blk ` set nodes"
    "\<forall>pe \<in> set nodes. Suc (calls h) \<le> blk pe \<and> blk pe < calls h'"
    "ok \<longrightarrow> (\<forall>n. Suc (calls h) \<le> n \<and> n < calls h' \<longrightarrow> orc n) \<and> map name nodes = ws"
    "\<not> ok \<longrightarrow> (\<exists>n. Suc (calls h) \<le> n \<and> n < calls h' \<and> \<not> orc n)"
    unfolding scan_post_def by auto
  let ?nodes = "\<lparr>blk = calls h, name = w\<rparr> # nodes"
  have 1: "pn' = pn @ ?nodes" using n(1) by simp
  have 2: "calls h \<le> calls h'" using n(2) by simp
  have 3: "live h' = live h \<union> blk ` set ?nodes" using n(3) by auto
  have 4: "\<forall>pe \<in> set ?nodes. calls h \<le> blk pe \<and> blk pe < calls h'"
    using n(2,4) by auto
  have 5: "ok \<longrightarrow> (\<forall>n. calls h \<le> n \<and> n < calls h' \<longrightarrow> orc n) \<and> map name ?nodes = w # ws"
  proof
    assume ok
    with n(5) have a: "\<forall>n. Suc (calls h) \<le> n \<and> n < calls h' \<longrightarrow> orc n"
      and b: "map name nodes = ws" by auto
    have "\<forall>n. calls h \<le> n \<and> n < calls h' \<longrightarrow> orc n"
    proof (intro allI impI)
      fix n assume "calls h \<le> n \<and> n < calls h'"
      then show "orc n" using a assms(1) by (cases "n = calls h") auto
    qed
    with b show "(\<forall>n. calls h \<le> n \<and> n < calls h' \<longrightarrow> orc n) \<and> map name ?nodes = w # ws"
      by simp
  qed
  have 6: "\<not> ok \<longrightarrow> (\<exists>n. calls h \<le> n \<and> n < calls h' \<and> \<not> orc n)"
  proof
    assume "\<not> ok"
    with n(6) obtain k where "Suc (calls h) \<le> k" "k < calls h'" "\<not> orc k" by auto
    then have "calls h \<le> k \<and> k < calls h' \<and> \<not> orc k" by simp
    then show "\<exists>n. calls h \<le> n \<and> n < calls h' \<and> \<not> orc n" ..
  qed
  show ?thesis unfolding scan_post_def
    by (rule exI [of _ ?nodes]) (intro conjI 1 2 3 4 5 6)
qed

lemma scan_loop_post:
  "scan_loop orc ps pn h = (ok, pn', h') \<Longrightarrow> scan_post orc (pieces ps) pn h ok pn' h'"
proof (induction ps arbitrary: pn h rule: length_induct)
  case (1 ps)
  show ?case
  proof (cases "dropWhile is_sep ps = []")
    case True
    have "pieces ps = pieces (dropWhile is_sep ps)"
      by (simp only: pieces_dropWhile)
    also have "\<dots> = []"
      by (simp only: True pieces_Nil)
    finally have "pieces ps = []" .
    with True "1.prems" show ?thesis
      by (simp add: scan_loop_done scan_post_refl)
  next
    case False
    define nm where "nm = takeWhile (\<lambda>c. \<not> is_sep c) (dropWhile is_sep ps)"
    define rest where "rest = drop 1 (dropWhile (\<lambda>c. \<not> is_sep c) (dropWhile is_sep ps))"
    have shorter: "length rest < length ps"
      unfolding rest_def using False by (rule scan_loop_measure)
    have ne: "nm \<noteq> []" unfolding nm_def using False by (rule takeWhile_nonsep_ne)
    have pcs: "pieces ps = (if nm \<noteq> ''.'' then [nm] else []) @ pieces rest"
      using pieces_step [of "dropWhile is_sep ps"] ne
      by (simp add: pieces_dropWhile Let_def nm_def rest_def)
    show ?thesis
    proof (cases "nm = ''.''")
      case True
      then have "scan_loop orc ps pn h = scan_loop orc rest pn h"
        unfolding nm_def rest_def using False by (simp add: scan_loop_skip)
      with "1.prems" have "scan_loop orc rest pn h = (ok, pn', h')" by simp
      with "1.IH" shorter have "scan_post orc (pieces rest) pn h ok pn' h'" by blast
      with True pcs show ?thesis by simp
    next
      case nd: False
      then have eq: "scan_loop orc ps pn h =
         (case pfs_malloc orc h of
            (None, h') \<Rightarrow> (False, pn, h')
          | (Some a, h') \<Rightarrow> scan_loop orc rest (pname_link pn \<lparr>blk = a, name = nm\<rparr>) h')"
        unfolding nm_def rest_def using False by (simp add: scan_loop_take)
      show ?thesis
      proof (cases orc h rule: pfs_malloc_cases)
        case ok
        with eq "1.prems" have
          "scan_loop orc rest (pn @ [\<lparr>blk = calls h, name = nm\<rparr>])
             \<lparr>calls = Suc (calls h), live = insert (calls h) (live h)\<rparr> = (ok, pn', h')"
          by (simp add: pname_link_def)
        with "1.IH" shorter have
          "scan_post orc (pieces rest) (pn @ [\<lparr>blk = calls h, name = nm\<rparr>])
             \<lparr>calls = Suc (calls h), live = insert (calls h) (live h)\<rparr> ok pn' h'" by blast
        with ok(1) have "scan_post orc (nm # pieces rest) pn h ok pn' h'"
          by (rule scan_post_cons)
        with nd pcs show ?thesis by simp
      next
        case fail
        with eq "1.prems" have "ok = False" "pn' = pn"
          "h' = \<lparr>calls = Suc (calls h), live = live h\<rparr>" by simp_all
        with fail(1) show ?thesis by (simp add: scan_post_fail)
      qed
    qed
  qed
qed

lemma live_free_all [simp]:
  "live (fold (\<lambda>pe. pfs_free (blk pe)) pn h) = live h - blk ` set pn"
  by (induction pn arbitrary: h) (auto simp: pfs_free_def)

lemma calls_free_all [simp]:
  "calls (fold (\<lambda>pe. pfs_free (blk pe)) pn h) = calls h"
  by (induction pn arbitrary: h) (auto simp: pfs_free_def)

lemma live_pname_delete [simp]:
  "live (pname_delete a pn h) = live h - blk ` set pn - {a}"
  by (simp add: pname_delete_def pname_clean_def pfs_free_def)

lemma calls_pname_delete [simp]: "calls (pname_delete a pn h) = calls h"
  by (simp add: pname_delete_def pname_clean_def pfs_free_def)

lemma pname_scan_post:
  assumes "pname_scan orc p [] h = (ok, pn', h')"
  shows "scan_post orc (segments p) [] h ok pn' h'"
proof (cases "p \<noteq> [] \<and> is_sep (hd p)")
  case False
  with assms have "scan_loop orc p [] h = (ok, pn', h')"
    by (simp add: pname_scan_def)
  then have "scan_post orc (pieces p) [] h ok pn' h'" by (rule scan_loop_post)
  with False show ?thesis by (auto simp: segments_def)
next
  case True
  then obtain c cs where p: "p = c # cs" and c: "is_sep c" by (cases p) auto
  then have seg: "segments p = rootdir # pieces cs"
    by (simp add: segments_def pieces_sep)
  show ?thesis
  proof (cases orc h rule: pfs_malloc_cases)
    case ok
    with assms p c have
      "scan_loop orc cs ([] @ [\<lparr>blk = calls h, name = rootdir\<rparr>])
         \<lparr>calls = Suc (calls h), live = insert (calls h) (live h)\<rparr> = (ok, pn', h')"
      by (simp add: pname_scan_def pname_link_def)
    then have "scan_post orc (pieces cs) ([] @ [\<lparr>blk = calls h, name = rootdir\<rparr>])
         \<lparr>calls = Suc (calls h), live = insert (calls h) (live h)\<rparr> ok pn' h'"
      by (rule scan_loop_post)
    with ok(1) have "scan_post orc (rootdir # pieces cs) [] h ok pn' h'"
      by (rule scan_post_cons)
    with seg show ?thesis by simp
  next
    case fail
    with assms p c have "ok = False" "pn' = []"
      "h' = \<lparr>calls = Suc (calls h), live = live h\<rparr>"
      by (simp_all add: pname_scan_def)
    with fail(1) show ?thesis by (simp add: scan_post_fail)
  qed
qed

lemma pname_create_post:
  assumes "pname_create orc p h = (r, h')" and "heap_ok h"
  shows "create_post orc p h r h'"
proof (cases orc h rule: pfs_malloc_cases)
  case fail
  with assms(1) have "r = None" "h' = \<lparr>calls = Suc (calls h), live = live h\<rparr>"
    by (simp_all add: pname_create_def)
  with fail(1) show ?thesis
    unfolding create_post_def by auto
next
  case ok
  let ?h1 = "\<lparr>calls = Suc (calls h), live = insert (calls h) (live h)\<rparr>"
  obtain sok pn h2 where sc: "pname_scan orc p [] ?h1 = (sok, pn, h2)"
    by (cases "pname_scan orc p [] ?h1") auto
  then have "scan_post orc (segments p) [] ?h1 sok pn h2" by (rule pname_scan_post)
  then have post:
    "Suc (calls h) \<le> calls h2"
    "live h2 = insert (calls h) (live h) \<union> blk ` set pn"
    "\<forall>pe \<in> set pn. Suc (calls h) \<le> blk pe \<and> blk pe < calls h2"
    "sok \<longrightarrow> (\<forall>n. Suc (calls h) \<le> n \<and> n < calls h2 \<longrightarrow> orc n) \<and> map name pn = segments p"
    "\<not> sok \<longrightarrow> (\<exists>n. Suc (calls h) \<le> n \<and> n < calls h2 \<and> \<not> orc n)"
    unfolding scan_post_def by auto
  show ?thesis
  proof (cases sok)
    case True
    with assms(1) ok sc have r: "r = Some (calls h, pn)" "h' = h2"
      by (simp_all add: pname_create_def)
    have "\<forall>n. calls h \<le> n \<and> n < calls h2 \<longrightarrow> orc n"
    proof (intro allI impI)
      fix n assume "calls h \<le> n \<and> n < calls h2"
      then show "orc n" using post(4) True ok(1) by (cases "n = calls h") auto
    qed
    moreover have "\<forall>pe \<in> set pn. calls h \<le> blk pe \<and> blk pe < calls h2"
      using post(3) by auto
    ultimately show ?thesis
      unfolding create_post_def using r post(1,2,4) True by auto
  next
    case False
    with assms(1) ok sc have r: "r = None" "h' = pname_delete (calls h) pn h2"
      by (simp_all add: pname_create_def)
    have "\<forall>pe \<in> set pn. blk pe \<notin> live h"
      using post(3) assms(2) unfolding heap_ok_def by fastforce
    moreover have "calls h \<notin> live h"
      using assms(2) unfolding heap_ok_def by fastforce
    ultimately have "live h' = live h"
      using r(2) post(2) by auto
    moreover from False post(5) have "\<exists>n. calls h \<le> n \<and> n < calls h2 \<and> \<not> orc n"
      by (meson Suc_leD)
    ultimately show ?thesis
      unfolding create_post_def using r post(1) by auto
  qed
qed

subsection \<open>Joining\<close>

lemma seg_ok_hd: "seg_ok w \<Longrightarrow> hd w = CHR ''/'' \<longleftrightarrow> w = rootdir"
  by (cases w) (auto simp: seg_ok_def rootdir_def is_sep_def)

lemma seg_ok_ne: "seg_ok w \<Longrightarrow> w \<noteq> []"
  by (auto simp: seg_ok_def rootdir_def)

lemma split_on_no_sep: "w \<in> set (split_on s) \<Longrightarrow> \<forall>c \<in> set w. \<not> is_sep c"
proof (induction s arbitrary: w)
  case Nil
  then show ?case by simp
next
  case (Cons c cs)
  have ne: "split_on cs \<noteq> []" by simp
  then have hd_in: "hd (split_on cs) \<in> set (split_on cs)" by simp
  show ?case
  proof (cases "is_sep c")
    case True
    with Cons show ?thesis by auto
  next
    case False
    with Cons.prems have "w = c # hd (split_on cs) \<or> w \<in> set (tl (split_on cs))" by simp
    then show ?thesis
    proof
      assume "w = c # hd (split_on cs)"
      with False Cons.IH [OF hd_in] show ?thesis by simp
    next
      assume "w \<in> set (tl (split_on cs))"
      then have "w \<in> set (split_on cs)" using ne by (meson list.set_sel(2))
      then show ?thesis by (rule Cons.IH)
    qed
  qed
qed

lemma pieces_seg_ok: "w \<in> set (pieces s) \<Longrightarrow> seg_ok w"
  using split_on_no_sep [of w s] by (auto simp: pieces_def seg_ok_def)

lemma segments_seg_ok: "w \<in> set (segments s) \<Longrightarrow> seg_ok w"
  using pieces_seg_ok [of w s] by (auto simp: segments_def seg_ok_def split: if_splits)

lemma is_dotdot_iff: "is_dotdot pe \<longleftrightarrow> name pe = ''..''"
proof -
  have "length w = 2 \<and> w ! 0 = CHR ''.'' \<and> w ! 1 = CHR ''.'' \<longleftrightarrow> w = ''..''" for w :: string
  proof (cases w)
    case Nil
    then show ?thesis by simp
  next
    case (Cons a v)
    then show ?thesis by (cases v) auto
  qed
  then show ?thesis by (simp add: is_dotdot_def)
qed

lemma relink_seg_ok:
  "\<forall>w \<in> set base. seg_ok w \<Longrightarrow> seg_ok seg \<Longrightarrow> \<forall>w \<in> set (relink base seg). seg_ok w"
  by (auto simp: relink_def dest: in_set_butlastD)

lemma pname_join_names:
  assumes "\<forall>pe \<in> set pn1. seg_ok (name pe)" and "\<forall>pe \<in> set pn2. seg_ok (name pe)"
  shows "map name (fst (pname_join pn1 pn2 h)) = foldl relink (map name pn1) (map name pn2)"
  using assms
proof (induction pn2 arbitrary: pn1 h)
  case Nil
  then show ?case by simp
next
  case (Cons pe2 pn2)
  have ok2: "seg_ok (name pe2)" and rest: "\<forall>pe \<in> set pn2. seg_ok (name pe)"
    using Cons.prems(2) by simp_all
  have root2: "hd (name pe2) = CHR ''/'' \<longleftrightarrow> name pe2 = rootdir"
    using ok2 by (rule seg_ok_hd)
  show ?case
  proof (cases "name pe2 = ''..''")
    case dd: True
    show ?thesis
    proof (cases "pn1 \<noteq> [] \<and> hd (name (last pn1)) \<noteq> CHR ''/''")
      case True
      then have "seg_ok (name (last pn1))" using Cons.prems(1) by simp
      then have "hd (name (last pn1)) = CHR ''/'' \<longleftrightarrow> name (last pn1) = rootdir"
        by (rule seg_ok_hd)
      with True have r: "relink (map name pn1) (name pe2) = map name (butlast pn1)"
        using dd by (simp add: relink_def rootdir_def last_map map_butlast)
      have "\<forall>pe \<in> set (butlast pn1). seg_ok (name pe)"
        using Cons.prems(1) by (auto dest: in_set_butlastD)
      from Cons.IH [OF this rest] True dd r show ?thesis
        by (simp add: is_dotdot_iff)
    next
      case False
      have r: "relink (map name pn1) (name pe2) = map name pn1"
      proof (cases "pn1 = []")
        case True
        then show ?thesis using dd by (simp add: relink_def rootdir_def)
      next
        case ne: False
        then have "seg_ok (name (last pn1))" using Cons.prems(1) by simp
        then have "hd (name (last pn1)) = CHR ''/'' \<longleftrightarrow> name (last pn1) = rootdir"
          by (rule seg_ok_hd)
        with False ne show ?thesis
          using dd by (simp add: relink_def rootdir_def last_map)
      qed
      have "pname_join pn1 (pe2 # pn2) h = pname_join pn1 pn2 (pfs_free (blk pe2) h)"
        using False dd by (auto simp: is_dotdot_iff)
      with Cons.IH [OF Cons.prems(1) rest] r show ?thesis
        by simp
    qed
  next
    case nd: False
    show ?thesis
    proof (cases "name pe2 = rootdir")
      case True
      then have r: "relink (map name pn1) (name pe2) = map name [pe2]"
        by (simp add: relink_def)
      have "\<forall>pe \<in> set [pe2]. seg_ok (name pe)" using ok2 by simp
      from Cons.IH [OF this rest] True nd r root2 show ?thesis
        by (simp add: is_dotdot_iff pname_clean_def pname_link_def)
    next
      case False
      then have r: "relink (map name pn1) (name pe2) = map name (pn1 @ [pe2])"
        using nd by (simp add: relink_def)
      have "\<forall>pe \<in> set (pn1 @ [pe2]). seg_ok (name pe)"
        using ok2 Cons.prems(1) by simp
      from Cons.IH [OF this rest] False nd r root2 show ?thesis
        by (simp add: is_dotdot_iff pname_link_def)
    qed
  qed
qed

lemma pname_join_heap:
  "pname_join pn1 pn2 h = (pn1', pn2', h') \<Longrightarrow>
   pn2' = [] \<and> calls h' = calls h \<and>
   live h' - blk ` set pn1' = live h - blk ` (set pn1 \<union> set pn2) \<and>
   blk ` set pn1' \<subseteq> blk ` (set pn1 \<union> set pn2)"
proof (induction pn2 arbitrary: pn1 h)
  case Nil
  then show ?case by auto
next
  case (Cons pe2 pn2)
  show ?case
  proof (cases "is_dotdot pe2")
    case dd: True
    show ?thesis
    proof (cases "pn1 \<noteq> [] \<and> hd (name (last pn1)) \<noteq> CHR ''/''")
      case True
      then have s: "set pn1 = insert (last pn1) (set (butlast pn1))"
        by (metis append_butlast_last_id list.simps(15) rotate1.simps(2) set_rotate1)
      from Cons.prems dd True have
        "pname_join (butlast pn1) pn2 (pfs_free (blk pe2) (pfs_free (blk (last pn1)) h))
           = (pn1', pn2', h')" by simp
      from Cons.IH [OF this] have ih: "pn2' = []" "calls h' = calls h"
        "live h' - blk ` set pn1' =
           live h - {blk (last pn1)} - {blk pe2} - blk ` (set (butlast pn1) \<union> set pn2)"
        "blk ` set pn1' \<subseteq> blk ` (set (butlast pn1) \<union> set pn2)"
        by (simp_all add: pfs_free_def)
      have b: "blk ` (set pn1 \<union> set (pe2 # pn2)) =
               insert (blk (last pn1)) (insert (blk pe2) (blk ` (set (butlast pn1) \<union> set pn2)))"
        using s by auto
      show ?thesis unfolding b using ih by auto
    next
      case False
      with Cons.prems dd have
        "pname_join pn1 pn2 (pfs_free (blk pe2) h) = (pn1', pn2', h')" by auto
      from Cons.IH [OF this] show ?thesis
        by (auto simp: pfs_free_def)
    qed
  next
    case nd: False
    show ?thesis
    proof (cases "hd (name pe2) = CHR ''/''")
      case True
      with Cons.prems nd have
        "pname_join [pe2] pn2 (fold (\<lambda>pe. pfs_free (blk pe)) pn1 h) = (pn1', pn2', h')"
        by (simp add: pname_clean_def pname_link_def)
      from Cons.IH [OF this] show ?thesis by auto
    next
      case False
      with Cons.prems nd have
        "pname_join (pn1 @ [pe2]) pn2 h = (pn1', pn2', h')"
        by (simp add: pname_link_def)
      from Cons.IH [OF this] show ?thesis by auto
    qed
  qed
qed

subsection \<open>Serializing and the whole operation\<close>

lemma mkname_copy_fold:
  "\<forall>pe \<in> set pn. seg_ok (name pe) \<Longrightarrow>
   fold (\<lambda>pe ps. if hd (name pe) \<noteq> CHR ''/'' then ps @ [CHR ''/''] @ name pe else ps) pn acc
     = acc @ slashed (map name pn)"
proof (induction pn arbitrary: acc)
  case Nil
  then show ?case by (simp add: slashed_def)
next
  case (Cons pe pn)
  then have "hd (name pe) = CHR ''/'' \<longleftrightarrow> name pe = rootdir"
    by (simp add: seg_ok_hd)
  with Cons show ?case by (simp add: slashed_def)
qed

lemma mkname_copy_eq:
  "\<forall>pe \<in> set pn. seg_ok (name pe) \<Longrightarrow> mkname_copy pn = slashed (map name pn)"
  by (simp add: mkname_copy_def mkname_copy_fold)

lemma mkname_nlen_fold:
  "fold (\<lambda>pe nlen. nlen + (length (name pe) + 1)) pn n
     = n + sum_list (map (\<lambda>w. length w + 1) (map name pn))"
  by (induction pn arbitrary: n) simp_all

lemma length_slashed: "length (slashed ws) \<le> sum_list (map (\<lambda>w. length w + 1) ws)"
  by (induction ws) (simp_all add: slashed_def)

lemma mkname_fits:
  assumes "pn \<noteq> []"
  shows "length (if slashed (map name pn) = [] then ''/'' else slashed (map name pn)) + 1
         \<le> mkname_nlen pn + 1"
proof -
  have n: "mkname_nlen pn = sum_list (map (\<lambda>w. length w + 1) (map name pn))"
    unfolding mkname_nlen_def mkname_nlen_fold by simp
  from assms have "1 \<le> mkname_nlen pn"
    unfolding n by (cases pn) simp_all
  moreover have "length (slashed (map name pn)) \<le> mkname_nlen pn"
    unfolding n by (rule length_slashed)
  ultimately show ?thesis by simp
qed

lemma pname_mkname_ok:
  assumes "orc (calls h)" and "\<forall>pe \<in> set pn. seg_ok (name pe)" and "pn \<noteq> []"
  shows "pname_mkname orc pn h =
         (Inr (serialize (map name pn)),
          \<lparr>calls = Suc (calls h), live = insert (calls h) (live h)\<rparr>)"
  using assms(1) mkname_fits [OF assms(3)]
  by (simp add: pname_mkname_def pfs_malloc_def mkname_copy_eq [OF assms(2)] serialize_def Let_def)

lemma pname_mkname_empty:
  assumes "orc (calls h)"
  shows "pname_mkname orc [] h =
         (Inl BufferOverrun, \<lparr>calls = Suc (calls h), live = insert (calls h) (live h)\<rparr>)"
  using assms
  by (simp add: pname_mkname_def pfs_malloc_def mkname_copy_def mkname_nlen_def)

lemma pname_mkname_heap:
  "pname_mkname orc pn h = (r, h') \<Longrightarrow>
   calls h' = Suc (calls h) \<and>
   (r = Inl OutOfMemory \<longleftrightarrow> \<not> orc (calls h)) \<and>
   live h' = (if orc (calls h) then insert (calls h) (live h) else live h)"
  by (auto simp: pname_mkname_def pfs_malloc_def Let_def split: if_splits)

lemma pname_create_names:
  assumes "\<forall>n. orc n"
  shows "\<exists>a pn h'. pname_create orc p h = (Some (a, pn), h') \<and> map name pn = segments p"
proof -
  have m: "pfs_malloc orc h = (Some (calls h), \<lparr>calls = Suc (calls h), live = insert (calls h) (live h)\<rparr>)"
    using assms by (simp add: pfs_malloc_def)
  let ?h1 = "\<lparr>calls = Suc (calls h), live = insert (calls h) (live h)\<rparr>"
  obtain sok pn h2 where sc: "pname_scan orc p [] ?h1 = (sok, pn, h2)"
    by (cases "pname_scan orc p [] ?h1") auto
  then have "scan_post orc (segments p) [] ?h1 sok pn h2" by (rule pname_scan_post)
  with assms have "sok" "map name pn = segments p"
    unfolding scan_post_def by auto
  with m sc show ?thesis by (simp add: pname_create_def)
qed

lemma foldl_relink_seg_ok:
  "\<forall>w \<in> set base. seg_ok w \<Longrightarrow> \<forall>w \<in> set adds. seg_ok w \<Longrightarrow>
   \<forall>w \<in> set (foldl relink base adds). seg_ok w"
proof (induction adds arbitrary: base)
  case Nil
  then show ?case by simp
next
  case (Cons a adds)
  have "\<forall>w \<in> set (relink base a). seg_ok w"
    using Cons.prems by (intro relink_seg_ok) simp_all
  with Cons show ?case by simp
qed

lemma survivors_seg_ok: "w \<in> set (survivors p1 p2) \<Longrightarrow> seg_ok w"
  using foldl_relink_seg_ok [of "segments p1" "segments p2"] segments_seg_ok
  unfolding survivors_def by blast

lemma pname_append_names:
  assumes "\<forall>n. orc n"
  shows "fst (pname_append orc p1 p2 h) =
         (if survivors p1 p2 = [] then Inl BufferOverrun
          else Inr (serialize (survivors p1 p2)))"
proof -
  obtain a1 pn1 h1 where c1: "pname_create orc p1 h = (Some (a1, pn1), h1)"
    and n1: "map name pn1 = segments p1"
    using pname_create_names [OF assms, of p1 h] by blast
  obtain a2 pn2 h2 where c2: "pname_create orc p2 h1 = (Some (a2, pn2), h2)"
    and n2: "map name pn2 = segments p2"
    using pname_create_names [OF assms, of p2 h1] by blast
  have ok1: "\<forall>pe \<in> set pn1. seg_ok (name pe)"
    using n1 segments_seg_ok [of _ p1] by (metis imageI list.set_map)
  have ok2: "\<forall>pe \<in> set pn2. seg_ok (name pe)"
    using n2 segments_seg_ok [of _ p2] by (metis imageI list.set_map)
  obtain pn1' pn2' h3 where j: "pname_join pn1 pn2 h2 = (pn1', pn2', h3)"
    by (cases "pname_join pn1 pn2 h2") auto
  have nm: "map name pn1' = survivors p1 p2"
    using pname_join_names [OF ok1 ok2, of h2] j n1 n2 by (simp add: survivors_def)
  have ok': "\<forall>pe \<in> set pn1'. seg_ok (name pe)"
    using nm survivors_seg_ok [of _ p1 p2] by (metis imageI list.set_map)
  have o: "orc (calls h3)" using assms by simp
  show ?thesis
  proof (cases "pn1' = []")
    case True
    with nm have "survivors p1 p2 = []" by simp
    with True c1 c2 j pname_mkname_empty [of orc h3] o show ?thesis
      by (simp add: pname_append_def)
  next
    case False
    with nm have "survivors p1 p2 \<noteq> []" by auto
    with c1 c2 j pname_mkname_ok [of orc h3 pn1'] o ok' False nm show ?thesis
      by (simp add: pname_append_def)
  qed
qed

lemma pname_append_heap:
  assumes "pname_append orc p1 p2 h = (r, h')" and "heap_ok h"
  shows "(r = Inl OutOfMemory \<longleftrightarrow> (\<exists>n. calls h \<le> n \<and> n < calls h' \<and> \<not> orc n)) \<and>
         live h' = (if r = Inl OutOfMemory then live h else insert (calls h' - 1) (live h))"
proof -
  obtain r1 h1 where c1: "pname_create orc p1 h = (r1, h1)"
    by (cases "pname_create orc p1 h") auto
  from pname_create_post [OF c1 assms(2)] have p1: "create_post orc p1 h r1 h1" .
  show ?thesis
  proof (cases r1)
    case None
    with c1 assms(1) have "r = Inl OutOfMemory" "h' = h1"
      by (simp_all add: pname_append_def)
    with p1 None show ?thesis by (auto simp: create_post_def)
  next
    case (Some ap1)
    obtain a1 pn1 where ap1: "ap1 = (a1, pn1)" by (cases ap1) auto
    from p1 Some ap1 have q1: "calls h < calls h1"
      "live h1 = live h \<union> insert a1 (blk ` set pn1)"
      "calls h \<le> a1" "a1 < calls h1"
      "\<forall>pe \<in> set pn1. calls h \<le> blk pe \<and> blk pe < calls h1"
      "\<forall>n. calls h \<le> n \<and> n < calls h1 \<longrightarrow> orc n"
      by (simp_all add: create_post_def)
    have fresh1: "a1 \<notin> live h" "\<forall>pe \<in> set pn1. blk pe \<notin> live h"
      using q1(3,5) assms(2) unfolding heap_ok_def by fastforce+
    have hok1: "heap_ok h1"
      using q1 assms(2) unfolding heap_ok_def by fastforce
    obtain r2 h2 where c2: "pname_create orc p2 h1 = (r2, h2)"
      by (cases "pname_create orc p2 h1") auto
    from pname_create_post [OF c2 hok1] have p2: "create_post orc p2 h1 r2 h2" .
    show ?thesis
    proof (cases r2)
      case None
      with c1 c2 Some ap1 assms(1) have r: "r = Inl OutOfMemory" "h' = pname_delete a1 pn1 h2"
        by (simp_all add: pname_append_def)
      from p2 None have q2: "calls h1 < calls h2" "live h2 = live h1"
        "\<exists>n. calls h1 \<le> n \<and> n < calls h2 \<and> \<not> orc n"
        by (simp_all add: create_post_def)
      have "live h' = live h" using r(2) q2(2) q1(2) fresh1 by auto
      moreover have "\<exists>n. calls h \<le> n \<and> n < calls h' \<and> \<not> orc n"
        using q2(3) q1(1) r(2) by (metis calls_pname_delete less_imp_le_nat le_trans)
      ultimately show ?thesis using r(1) by simp
    next
      case (Some ap2)
      obtain a2 pn2 where ap2: "ap2 = (a2, pn2)" by (cases ap2) auto
      from p2 Some ap2 have q2: "calls h1 < calls h2"
        "live h2 = live h1 \<union> insert a2 (blk ` set pn2)"
        "calls h1 \<le> a2" "a2 < calls h2"
        "\<forall>pe \<in> set pn2. calls h1 \<le> blk pe \<and> blk pe < calls h2"
        "\<forall>n. calls h1 \<le> n \<and> n < calls h2 \<longrightarrow> orc n"
        by (simp_all add: create_post_def)
      obtain pn1' pn2' h3 where j: "pname_join pn1 pn2 h2 = (pn1', pn2', h3)"
        by (cases "pname_join pn1 pn2 h2") auto
      from pname_join_heap [OF j] have q3: "pn2' = []" "calls h3 = calls h2"
        "live h3 - blk ` set pn1' = live h2 - blk ` (set pn1 \<union> set pn2)"
        "blk ` set pn1' \<subseteq> blk ` (set pn1 \<union> set pn2)" by simp_all
      obtain h4 where m: "pname_mkname orc pn1' h3 = (r, h4)"
        and h': "h' = pname_delete a2 pn2' (pname_delete a1 pn1' h4)"
        using assms(1) c1 c2 \<open>r1 = Some ap1\<close> ap1 Some ap2 j
        by (cases "pname_mkname orc pn1' h3") (simp add: pname_append_def)
      from pname_mkname_heap [OF m] have q4: "calls h4 = Suc (calls h2)"
        "r = Inl OutOfMemory \<longleftrightarrow> \<not> orc (calls h2)"
        "live h4 = (if orc (calls h2) then insert (calls h2) (live h3) else live h3)"
        using q3(2) by simp_all
      have c': "calls h' = Suc (calls h2)" using h' q4(1) by simp
      have below: "\<forall>b \<in> blk ` (set pn1 \<union> set pn2). b < calls h2"
        using q1(5) q2(1,5) by fastforce
      have fresh2: "a2 \<notin> live h" "\<forall>pe \<in> set pn2. blk pe \<notin> live h"
        using q2(3,5) q1(1) assms(2) unfolding heap_ok_def by fastforce+
      have base: "live h3 - blk ` set pn1' - {a1} - {a2} = live h"
      proof -
        have "live h3 - blk ` set pn1' - {a1} - {a2}
              = live h2 - blk ` (set pn1 \<union> set pn2) - {a1} - {a2}"
          using q3(3) by simp
        also have "\<dots> = live h"
          unfolding q2(2) q1(2) using fresh1 fresh2 by auto
        finally show ?thesis .
      qed
      have first: "r = Inl OutOfMemory \<longleftrightarrow> (\<exists>n. calls h \<le> n \<and> n < calls h' \<and> \<not> orc n)"
      proof
        assume "r = Inl OutOfMemory"
        with q4(2) have "\<not> orc (calls h2)" by simp
        moreover have "calls h \<le> calls h2" using q1(1) q2(1) by simp
        ultimately show "\<exists>n. calls h \<le> n \<and> n < calls h' \<and> \<not> orc n"
          unfolding c' by (intro exI [of _ "calls h2"]) simp
      next
        assume "\<exists>n. calls h \<le> n \<and> n < calls h' \<and> \<not> orc n"
        then obtain n where n: "calls h \<le> n" "n < Suc (calls h2)" "\<not> orc n"
          unfolding c' by auto
        have "n = calls h2"
        proof (rule ccontr)
          assume "n \<noteq> calls h2"
          with n(2) have lt: "n < calls h2" by simp
          show False
          proof (cases "n < calls h1")
            case True
            with n(1) q1(6) n(3) show False by simp
          next
            case False
            with lt q2(6) n(3) show False by simp
          qed
        qed
        with n(3) q4(2) show "r = Inl OutOfMemory" by simp
      qed
      have second: "live h' = (if r = Inl OutOfMemory then live h else insert (calls h' - 1) (live h))"
      proof (cases "orc (calls h2)")
        case False
        with q4 have "r = Inl OutOfMemory" "live h4 = live h3" by simp_all
        with h' q3(1) base show ?thesis by auto
      next
        case True
        with q4 have nr: "r \<noteq> Inl OutOfMemory" and l4: "live h4 = insert (calls h2) (live h3)"
          by simp_all
        have ne: "calls h2 \<notin> blk ` set pn1'" "calls h2 \<noteq> a1" "calls h2 \<noteq> a2"
          using q3(4) below q1(4) q2(1,4) by fastforce+
        have "live h' = insert (calls h2) (live h3) - blk ` set pn1' - {a1} - {a2}"
          using h' q3(1) l4 by simp
        also have "\<dots> = insert (calls h2) (live h3 - blk ` set pn1' - {a1} - {a2})"
          using ne by auto
        finally show ?thesis using nr base c' by simp
      qed
      from first second show ?thesis by simp
    qed
  qed
qed

lemma pname_create_Some:
  assumes "pname_create orc p h = (Some (a, pn), h')"
  shows "map name pn = segments p"
proof (cases orc h rule: pfs_malloc_cases)
  case fail
  with assms show ?thesis by (simp add: pname_create_def)
next
  case ok
  let ?h1 = "\<lparr>calls = Suc (calls h), live = insert (calls h) (live h)\<rparr>"
  obtain sok pn2 h2 where sc: "pname_scan orc p [] ?h1 = (sok, pn2, h2)"
    by (cases "pname_scan orc p [] ?h1") auto
  with assms ok have "sok" "pn2 = pn"
    by (auto simp: pname_create_def split: if_splits)
  with pname_scan_post [OF sc] show ?thesis
    by (simp add: scan_post_def)
qed

lemma names_seg_ok:
  "map name pn = ws \<Longrightarrow> \<forall>w \<in> set ws. seg_ok w \<Longrightarrow> \<forall>pe \<in> set pn. seg_ok (name pe)"
  by auto

lemma pname_append_Inr:
  assumes "fst (pname_append orc p1 p2 h) = Inr r"
  shows "r = serialize (survivors p1 p2) \<and> survivors p1 p2 \<noteq> []"
proof -
  obtain r1 h1 where c1: "pname_create orc p1 h = (r1, h1)"
    by (cases "pname_create orc p1 h") auto
  with assms obtain a1 pn1 where r1: "r1 = Some (a1, pn1)"
    by (cases r1) (auto simp: pname_append_def)
  obtain r2 h2 where c2: "pname_create orc p2 h1 = (r2, h2)"
    by (cases "pname_create orc p2 h1") auto
  with assms c1 r1 obtain a2 pn2 where r2: "r2 = Some (a2, pn2)"
    by (cases r2) (auto simp: pname_append_def)
  have n1: "map name pn1 = segments p1" using c1 r1 pname_create_Some by blast
  have n2: "map name pn2 = segments p2" using c2 r2 pname_create_Some by blast
  have ok1: "\<forall>pe \<in> set pn1. seg_ok (name pe)"
    using n1 by (rule names_seg_ok) (simp add: segments_seg_ok)
  have ok2: "\<forall>pe \<in> set pn2. seg_ok (name pe)"
    using n2 by (rule names_seg_ok) (simp add: segments_seg_ok)
  obtain pn1' pn2' h3 where j: "pname_join pn1 pn2 h2 = (pn1', pn2', h3)"
    by (cases "pname_join pn1 pn2 h2") auto
  have nm: "map name pn1' = survivors p1 p2"
    using pname_join_names [OF ok1 ok2, of h2] j n1 n2 by (simp add: survivors_def)
  have ok': "\<forall>pe \<in> set pn1'. seg_ok (name pe)"
    using nm by (rule names_seg_ok) (simp add: survivors_seg_ok)
  have m: "fst (pname_mkname orc pn1' h3) = Inr r"
    using assms c1 r1 c2 r2 j by (simp add: pname_append_def split: prod.splits)
  have o: "orc (calls h3)"
    using m by (auto simp: pname_mkname_def pfs_malloc_def split: if_splits)
  have ne: "pn1' \<noteq> []"
    using m pname_mkname_empty [of orc h3] o by auto
  with m pname_mkname_ok [of orc h3 pn1'] o ok' nm show ?thesis by auto
qed

lemma between_slashed:
  "filter (\<lambda>w. w \<noteq> rootdir) ws \<noteq> [] \<Longrightarrow>
   slashed ws = CHR ''/'' # between (filter (\<lambda>w. w \<noteq> rootdir) ws)"
proof -
  have "xs \<noteq> [] \<Longrightarrow> concat (map (\<lambda>w. CHR ''/'' # w) xs) = CHR ''/'' # between xs"
    for xs :: "string list"
    by (induction xs rule: between.induct) simp_all
  then show "filter (\<lambda>w. w \<noteq> rootdir) ws \<noteq> [] \<Longrightarrow> ?thesis"
    by (simp add: slashed_def)
qed

lemma serialize_vs_spec:
  assumes "segs \<noteq> []"
  shows "serialize segs =
         (if rootdir \<in> set segs then serialize_spec segs else CHR ''/'' # serialize_spec segs)"
proof (cases "filter (\<lambda>w. w \<noteq> rootdir) segs = []")
  case True
  then have "rootdir \<in> set segs"
    using assms by (metis (mono_tags, lifting) filter_empty_conv last_in_set)
  with True assms show ?thesis
    by (simp add: serialize_def slashed_def serialize_spec_def)
next
  case False
  from between_slashed [OF False] False assms show ?thesis
    by (simp add: serialize_def serialize_spec_def)
qed

subsection \<open>Backslashes and absolute additions\<close>

lemma is_sep_to_slash [simp]: "is_sep (to_slash c) = is_sep c"
  by (simp add: is_sep_def to_slash_def)

lemma to_slash_nonsep: "\<not> is_sep c \<Longrightarrow> to_slash c = c"
  by (simp add: is_sep_def to_slash_def)

lemma dropWhile_sep_to_slash:
  "dropWhile is_sep (map to_slash ps) = map to_slash (dropWhile is_sep ps)"
  by (induction ps) simp_all

lemma dropWhile_nonsep_to_slash:
  "dropWhile (\<lambda>c. \<not> is_sep c) (map to_slash ps) = map to_slash (dropWhile (\<lambda>c. \<not> is_sep c) ps)"
  by (induction ps) simp_all

lemma takeWhile_nonsep_to_slash:
  "takeWhile (\<lambda>c. \<not> is_sep c) (map to_slash ps) = takeWhile (\<lambda>c. \<not> is_sep c) ps"
  by (induction ps) (simp_all add: to_slash_nonsep)

lemma scan_loop_to_slash:
  "scan_loop orc (map to_slash ps) pn h = scan_loop orc ps pn h"
proof (induction ps arbitrary: pn h rule: length_induct)
  case (1 ps)
  define rest where "rest = drop 1 (dropWhile (\<lambda>c. \<not> is_sep c) (dropWhile is_sep ps))"
  have rest': "drop 1 (dropWhile (\<lambda>c. \<not> is_sep c) (dropWhile is_sep (map to_slash ps)))
               = map to_slash rest"
    by (simp add: rest_def dropWhile_sep_to_slash dropWhile_nonsep_to_slash drop_map)
  have nm': "takeWhile (\<lambda>c. \<not> is_sep c) (dropWhile is_sep (map to_slash ps))
             = takeWhile (\<lambda>c. \<not> is_sep c) (dropWhile is_sep ps)"
    by (simp add: dropWhile_sep_to_slash takeWhile_nonsep_to_slash)
  show ?case
  proof (cases "dropWhile is_sep ps = []")
    case True
    then have "dropWhile is_sep (map to_slash ps) = []"
      by (simp only: dropWhile_sep_to_slash list.map)
    with True show ?thesis by (simp only: scan_loop_done)
  next
    case False
    then have False': "dropWhile is_sep (map to_slash ps) \<noteq> []"
      by (simp only: dropWhile_sep_to_slash map_is_Nil_conv not_False_eq_True)
    have shorter: "length rest < length ps"
      unfolding rest_def using False by (rule scan_loop_measure)
    have ih: "scan_loop orc (map to_slash rest) pn' h' = scan_loop orc rest pn' h'" for pn' h'
      using "1.IH" shorter by blast
    show ?thesis
    proof (cases "takeWhile (\<lambda>c. \<not> is_sep c) (dropWhile is_sep ps) = ''.''")
      case True
      have "scan_loop orc (map to_slash ps) pn h = scan_loop orc (map to_slash rest) pn h"
        using scan_loop_skip [OF False', of orc pn h] True
        by (simp only: nm' rest' simp_thms)
      moreover have "scan_loop orc ps pn h = scan_loop orc rest pn h"
        using scan_loop_skip [OF False True] by (simp only: rest_def)
      ultimately show ?thesis using ih by simp
    next
      case nd: False
      have "scan_loop orc (map to_slash ps) pn h =
         (case pfs_malloc orc h of
            (None, h') \<Rightarrow> (False, pn, h')
          | (Some a, h') \<Rightarrow>
              scan_loop orc (map to_slash rest)
                (pname_link pn \<lparr>blk = a,
                   name = takeWhile (\<lambda>c. \<not> is_sep c) (dropWhile is_sep ps)\<rparr>) h')"
        using scan_loop_take [OF False', of orc pn h] nd
        by (simp only: nm' rest' simp_thms)
      moreover have "scan_loop orc ps pn h =
         (case pfs_malloc orc h of
            (None, h') \<Rightarrow> (False, pn, h')
          | (Some a, h') \<Rightarrow>
              scan_loop orc rest
                (pname_link pn \<lparr>blk = a,
                   name = takeWhile (\<lambda>c. \<not> is_sep c) (dropWhile is_sep ps)\<rparr>) h')"
        using scan_loop_take [OF False nd] by (simp only: rest_def)
      ultimately show ?thesis by (simp add: ih split: prod.splits option.splits)
    qed
  qed
qed

lemma pname_scan_to_slash:
  "pname_scan orc (map to_slash p) pn h = pname_scan orc p pn h"
proof (cases p)
  case Nil
  then show ?thesis by (simp add: pname_scan_def)
next
  case (Cons c cs)
  then show ?thesis
    using scan_loop_to_slash [of orc cs] scan_loop_to_slash [of orc "c # cs"]
    by (simp add: pname_scan_def split: prod.splits option.splits)
qed

lemma pname_create_to_slash:
  "pname_create orc (map to_slash p) h = pname_create orc p h"
  by (simp add: pname_create_def pname_scan_to_slash split: prod.splits option.splits)

lemma pname_append_to_slash:
  "pname_append orc (map to_slash p1) (map to_slash p2) h = pname_append orc p1 p2 h"
  by (simp add: pname_append_def pname_create_to_slash split: prod.splits option.splits)

lemma seg_ok_no_backslash: "seg_ok w \<Longrightarrow> CHR 0x5C \<notin> set w"
  by (auto simp: seg_ok_def rootdir_def is_sep_def)

lemma slashed_no_backslash:
  "\<forall>w \<in> set ws. seg_ok w \<Longrightarrow> CHR 0x5C \<notin> set (slashed ws)"
  by (auto simp: slashed_def dest: seg_ok_no_backslash)

lemma serialize_no_backslash:
  "\<forall>w \<in> set ws. seg_ok w \<Longrightarrow> CHR 0x5C \<notin> set (serialize ws)"
  using slashed_no_backslash [of ws] by (simp add: serialize_def)

lemma segments_absolute:
  "addition \<noteq> [] \<Longrightarrow> is_sep (hd addition) \<Longrightarrow> segments addition = rootdir # pieces addition"
  by (simp add: segments_def)

lemma relink_root: "relink base rootdir = [rootdir]"
  by (simp add: relink_def)

lemma relink_rooted:
  assumes "base \<noteq> []" and "hd base = rootdir"
  shows "relink base seg \<noteq> [] \<and> hd (relink base seg) = rootdir"
proof (cases "seg = ''..'' \<and> last base \<noteq> rootdir")
  case True
  with assms have "butlast base \<noteq> []"
    by (cases base) (auto split: if_splits)
  moreover from this have "hd (butlast base) = hd base"
    by (cases base) (auto split: if_splits)
  ultimately show ?thesis using True assms by (simp add: relink_def rootdir_def)
next
  case False
  with assms show ?thesis by (auto simp: relink_def)
qed

lemma foldl_relink_rooted:
  "base \<noteq> [] \<Longrightarrow> hd base = rootdir \<Longrightarrow>
   foldl relink base adds \<noteq> [] \<and> hd (foldl relink base adds) = rootdir"
proof (induction adds arbitrary: base)
  case Nil
  then show ?case by simp
next
  case (Cons a adds)
  from relink_rooted [OF Cons.prems, of a] Cons.IH show ?case by simp
qed

lemma survivors_absolute:
  assumes "addition \<noteq> []" and "is_sep (hd addition)"
  shows "survivors base addition = foldl relink [rootdir] (pieces addition)"
    and "survivors base addition \<noteq> []"
proof -
  show a: "survivors base addition = foldl relink [rootdir] (pieces addition)"
    by (simp add: survivors_def segments_absolute [OF assms] relink_root)
  show "survivors base addition \<noteq> []"
    unfolding a using foldl_relink_rooted [of "[rootdir]" "pieces addition"] by simp
qed

lemma pieces_word_run:
  assumes "\<forall>c \<in> set u. \<not> is_sep c" and "seps \<noteq> []" and "\<forall>c \<in> set seps. is_sep c"
  shows "pieces (u @ seps @ rest) = (if u \<noteq> [] \<and> u \<noteq> ''.'' then [u] else []) @ pieces rest"
proof -
  obtain s ss where seps: "seps = s # ss" using assms(2) by (cases seps) auto
  have s: "is_sep s" and ss: "\<forall>c \<in> set ss. is_sep c" using assms(3) seps by simp_all
  have tk: "takeWhile (\<lambda>c. \<not> is_sep c) (u @ seps @ rest) = u"
    using assms(1) s by (simp add: seps takeWhile_append2)
  have dr: "dropWhile (\<lambda>c. \<not> is_sep c) (u @ seps @ rest) = seps @ rest"
    using assms(1) s by (simp add: seps dropWhile_append2)
  have "pieces (ss @ rest) = pieces (dropWhile is_sep (ss @ rest))"
    by (simp only: pieces_dropWhile)
  also have "dropWhile is_sep (ss @ rest) = dropWhile is_sep rest"
    using ss by (simp add: dropWhile_append2)
  also have "pieces (dropWhile is_sep rest) = pieces rest"
    by (simp only: pieces_dropWhile)
  finally have r: "pieces (ss @ rest) = pieces rest" .
  show ?thesis
    using pieces_step [of "u @ seps @ rest"] r
    unfolding tk dr Let_def by (simp add: seps)
qed

lemma pieces_word:
  assumes "\<forall>c \<in> set v. \<not> is_sep c"
  shows "pieces v = (if v \<noteq> [] \<and> v \<noteq> ''.'' then [v] else [])"
proof -
  have tk: "takeWhile (\<lambda>c. \<not> is_sep c) v = v" using assms by simp
  have dr: "dropWhile (\<lambda>c. \<not> is_sep c) v = []" using assms by simp
  show ?thesis
    using pieces_step [of v] unfolding tk dr Let_def by simp
qed

lemma segments_two_words:
  assumes nu: "\<forall>c \<in> set u. \<not> is_sep c" and nv: "\<forall>c \<in> set v. \<not> is_sep c"
    and ne: "u \<noteq> []" "u \<noteq> ''.''" "v \<noteq> []" "v \<noteq> ''.''" "seps \<noteq> []"
    and sp: "\<forall>c \<in> set seps. is_sep c"
    and ld: "\<forall>c \<in> set lead. is_sep c"
  shows "segments (lead @ u @ seps @ v) = (if lead = [] then [] else [rootdir]) @ [u, v]"
proof -
  have uv: "pieces (u @ seps @ v) = [u, v]"
    using pieces_word_run [OF nu ne(5) sp, of v] pieces_word [OF nv] ne by simp
  show ?thesis
  proof (cases "lead = []")
    case True
    have "\<not> is_sep (hd (u @ seps @ v))" using nu ne(1) by (cases u) auto
    with True uv show ?thesis by (simp add: segments_def)
  next
    case False
    have e: "\<forall>c \<in> set ([]::string). \<not> is_sep c" by simp
    from pieces_word_run [OF e False ld, of "u @ seps @ v"]
    have "pieces (lead @ u @ seps @ v) = [u, v]" using uv by simp
    moreover have "is_sep (hd (lead @ u @ seps @ v))" using False ld by (cases lead) auto
    ultimately show ?thesis using False by (simp add: segments_def)
  qed
qed

lemma serialize_three_words:
  assumes "CHR ''/'' \<notin> set u" "CHR ''/'' \<notin> set v" "CHR ''/'' \<notin> set w"
  shows "serialize ((if b then [] else [rootdir]) @ [u, v, w]) =
         CHR ''/'' # u @ CHR ''/'' # v @ CHR ''/'' # w"
proof -
  from assms have "u \<noteq> rootdir" "v \<noteq> rootdir" "w \<noteq> rootdir"
    by (auto simp: rootdir_def)
  then show ?thesis by (simp add: serialize_def slashed_def)
qed

lemma pname_append_words:
  assumes ok: "\<forall>n. orc n"
    and u: "CHR ''/'' \<notin> set u" "CHR 0x5C \<notin> set u" "u \<noteq> []" "u \<noteq> ''.''"
    and v: "CHR ''/'' \<notin> set v" "CHR 0x5C \<notin> set v" "v \<noteq> []" "v \<noteq> ''.''"
    and w: "CHR ''/'' \<notin> set w" "CHR 0x5C \<notin> set w" "w \<noteq> []" "w \<noteq> ''.''" "w \<noteq> ''..''"
    and seps: "seps \<noteq> []" "set seps \<subseteq> {CHR ''/'', CHR 0x5C}"
    and lead: "set lead \<subseteq> {CHR ''/'', CHR 0x5C}"
  shows "fst (pname_append orc (lead @ u @ seps @ v) w h) =
         Inr (CHR ''/'' # u @ CHR ''/'' # v @ CHR ''/'' # w)"
proof -
  from u v w have nu: "\<forall>c \<in> set u. \<not> is_sep c" and nv: "\<forall>c \<in> set v. \<not> is_sep c"
    and nw: "\<forall>c \<in> set w. \<not> is_sep c"
    by (auto simp: is_sep_def)
  from seps lead have sp: "\<forall>c \<in> set seps. is_sep c" and ld: "\<forall>c \<in> set lead. is_sep c"
    by (auto simp: is_sep_def)
  have s1: "segments (lead @ u @ seps @ v) = (if lead = [] then [] else [rootdir]) @ [u, v]"
    by (rule segments_two_words [OF nu nv u(3,4) v(3,4) seps(1) sp ld])
  have "\<not> is_sep (hd w)" using nw w(3) by (cases w) auto
  then have s2: "segments w = [w]"
    using pieces_word [OF nw] w(3,4) by (simp add: segments_def)
  from w(1) have wr: "w \<noteq> rootdir" by (auto simp: rootdir_def)
  have sv: "survivors (lead @ u @ seps @ v) w = (if lead = [] then [] else [rootdir]) @ [u, v, w]"
    using wr w(5) by (simp add: survivors_def s1 s2 relink_def)
  then have "survivors (lead @ u @ seps @ v) w \<noteq> []" by simp
  with pname_append_names [OF ok, of "lead @ u @ seps @ v" w h]
  have "fst (pname_append orc (lead @ u @ seps @ v) w h) =
        Inr (serialize ((if lead = [] then [] else [rootdir]) @ [u, v, w]))"
    by (simp only: sv if_False)
  then show ?thesis using serialize_three_words [OF u(1) v(1) w(1), of "lead = []"] by simp
qed

section \<open>The claims about path names\<close>

text \<open>
  Claim C1, as amended. When every allocation succeeds and at least one segment
  survives, \<open>pname_append\<close> returns the surviving segments other than the root with
  \<open>/\<close> between them and a \<open>/\<close> in front, whether or not a root segment is among them:
  the serialization of the spec when the root survives, and the same with a \<open>/\<close> put
  in front when it does not. Only the root surviving gives \<open>/\<close>.
\<close>

theorem pname_append_serialize:
  assumes "\<forall>n. orc n" and "survivors psPath1 psPath2 \<noteq> []"
  shows "fst (pname_append orc psPath1 psPath2 h) =
         Inr (if rootdir \<in> set (survivors psPath1 psPath2)
              then serialize_spec (survivors psPath1 psPath2)
              else CHR ''/'' # serialize_spec (survivors psPath1 psPath2))"
  using pname_append_names [OF assms(1), of psPath1 psPath2 h] assms(2)
    serialize_vs_spec [OF assms(2)]
  by simp

text \<open>
  The instance of C1 in the spec: \<open>rel/path\<close> joined with \<open>../../x\<close> is \<open>/x\<close>.
\<close>

theorem pname_append_serialize_witness:
  "(\<forall>n. (\<lambda>_. True) n) \<and> survivors ''rel/path'' ''../../x'' \<noteq> [] \<and>
   fst (pname_append (\<lambda>_. True) ''rel/path'' ''../../x'' heap0) = Inr ''/x''"
proof -
  have a: "\<forall>n::nat. (\<lambda>_. True) n" by simp
  have b: "survivors ''rel/path'' ''../../x'' \<noteq> []" by code_simp
  have c: "(if rootdir \<in> set (survivors ''rel/path'' ''../../x'')
            then serialize_spec (survivors ''rel/path'' ''../../x'')
            else CHR ''/'' # serialize_spec (survivors ''rel/path'' ''../../x'')) = ''/x''"
    by code_simp
  from pname_append_serialize [OF a b, of heap0] a b show ?thesis
    unfolding c by simp
qed

text \<open>
  Claim C1 as the spec states it asks for \<open>x\<close> here, with no leading separator for a
  relative result. The code does not return that.
\<close>

theorem pname_append_relative_counterexample:
  "\<not> fst (pname_append (\<lambda>_. True) ''rel/path'' ''../../x'' heap0) = Inr ''x''"
  by code_simp

text \<open>
  Claim C2. The nodes that \<open>pname_join\<close> leaves in the first list are the segments of
  the base with the rule \<open>relink\<close> applied for each segment of the addition in order. For
  a segment \<open>..\<close> that rule removes the last segment of the base when there is one and
  it is not the root, and otherwise leaves the base as it is; nothing in \<open>pname_join\<close>
  can fail. Hence \<open>/usr/local\<close> joined with \<open>../bin\<close> is \<open>/usr/bin\<close>, and \<open>/\<close> joined
  with \<open>..\<close> is \<open>/\<close>.
\<close>

theorem pname_join_dotdot:
  assumes "pname_create orc base h = (Some (a1, pn1), h1)"
    and "pname_create orc addition h1 = (Some (a2, pn2), h2)"
  shows "map name (fst (pname_join pn1 pn2 h2)) = foldl relink (segments base) (segments addition) \<and>
         relink segs ''..'' = (if segs \<noteq> [] \<and> last segs \<noteq> rootdir then butlast segs else segs) \<and>
         fst (pname_append (\<lambda>_. True) ''/usr/local'' ''../bin'' heap0) = Inr ''/usr/bin'' \<and>
         fst (pname_append (\<lambda>_. True) ''/'' ''..'' heap0) = Inr ''/''"
proof -
  have n1: "map name pn1 = segments base" using assms(1) by (rule pname_create_Some)
  have n2: "map name pn2 = segments addition" using assms(2) by (rule pname_create_Some)
  have ok1: "\<forall>pe \<in> set pn1. seg_ok (name pe)"
    using n1 by (rule names_seg_ok) (simp add: segments_seg_ok)
  have ok2: "\<forall>pe \<in> set pn2. seg_ok (name pe)"
    using n2 by (rule names_seg_ok) (simp add: segments_seg_ok)
  have "map name (fst (pname_join pn1 pn2 h2)) = foldl relink (segments base) (segments addition)"
    using pname_join_names [OF ok1 ok2, of h2] n1 n2 by simp
  moreover have "relink segs ''..'' =
      (if segs \<noteq> [] \<and> last segs \<noteq> rootdir then butlast segs else segs)"
    by (simp add: relink_def rootdir_def)
  moreover have "fst (pname_append (\<lambda>_. True) ''/usr/local'' ''../bin'' heap0) = Inr ''/usr/bin''"
    by code_simp
  moreover have "fst (pname_append (\<lambda>_. True) ''/'' ''..'' heap0) = Inr ''/''"
    by code_simp
  ultimately show ?thesis by simp
qed

text \<open>The instance of C2 for \<open>/usr/local\<close> and \<open>../bin\<close>, node by node.\<close>

theorem pname_join_dotdot_witness:
  "pname_create (\<lambda>_. True) ''/usr/local'' heap0 =
     (Some (0, [\<lparr>blk = 1, name = ''/''\<rparr>, \<lparr>blk = 2, name = ''usr''\<rparr>, \<lparr>blk = 3, name = ''local''\<rparr>]),
      \<lparr>calls = 4, live = {0, 1, 2, 3}\<rparr>) \<and>
   pname_create (\<lambda>_. True) ''../bin'' \<lparr>calls = 4, live = {0, 1, 2, 3}\<rparr> =
     (Some (4, [\<lparr>blk = 5, name = ''..''\<rparr>, \<lparr>blk = 6, name = ''bin''\<rparr>]),
      \<lparr>calls = 7, live = {0, 1, 2, 3, 4, 5, 6}\<rparr>) \<and>
   map name (fst (pname_join
      [\<lparr>blk = 1, name = ''/''\<rparr>, \<lparr>blk = 2, name = ''usr''\<rparr>, \<lparr>blk = 3, name = ''local''\<rparr>]
      [\<lparr>blk = 5, name = ''..''\<rparr>, \<lparr>blk = 6, name = ''bin''\<rparr>]
      \<lparr>calls = 7, live = {0, 1, 2, 3, 4, 5, 6}\<rparr>)) = [''/'', ''usr'', ''bin'']"
proof -
  have a: "pname_create (\<lambda>_. True) ''/usr/local'' heap0 =
     (Some (0, [\<lparr>blk = 1, name = ''/''\<rparr>, \<lparr>blk = 2, name = ''usr''\<rparr>, \<lparr>blk = 3, name = ''local''\<rparr>]),
      \<lparr>calls = 4, live = {0, 1, 2, 3}\<rparr>)"
    by code_simp
  have b: "pname_create (\<lambda>_. True) ''../bin'' \<lparr>calls = 4, live = {0, 1, 2, 3}\<rparr> =
     (Some (4, [\<lparr>blk = 5, name = ''..''\<rparr>, \<lparr>blk = 6, name = ''bin''\<rparr>]),
      \<lparr>calls = 7, live = {0, 1, 2, 3, 4, 5, 6}\<rparr>)"
    by code_simp
  have c: "foldl relink (segments ''/usr/local'') (segments ''../bin'') = [''/'', ''usr'', ''bin'']"
    by code_simp
  from pname_join_dotdot [OF a b, of "[]"] a b show ?thesis
    unfolding c by simp
qed


text \<open>
  Claim C3. When the addition begins with a separator, the base list is cleared before
  the root of the addition is linked, so the result is the serialization of what the
  addition alone builds on the root: it is the same for every base. In particular \<open>/a\<close>
  joined with \<open>/b\<close> is \<open>/b\<close>.
\<close>

theorem pname_append_absolute:
  assumes "\<forall>n. orc n" and "addition \<noteq> []" and "is_sep (hd addition)"
  shows "fst (pname_append orc base addition h) =
           Inr (serialize (foldl relink [rootdir] (pieces addition))) \<and>
         fst (pname_append orc base addition h) = fst (pname_append orc base' addition h') \<and>
         fst (pname_append orc ''/a'' ''/b'' h) = Inr ''/b''"
proof -
  have r: "fst (pname_append orc b addition k) =
           Inr (serialize (foldl relink [rootdir] (pieces addition)))" for b k
    using pname_append_names [OF assms(1), of b addition k]
      survivors_absolute [OF assms(2,3), of b]
    by simp
  have "survivors ''/a'' ''/b'' \<noteq> []" by code_simp
  moreover have "serialize (survivors ''/a'' ''/b'') = ''/b''" by code_simp
  ultimately have "fst (pname_append orc ''/a'' ''/b'' h) = Inr ''/b''"
    using pname_append_names [OF assms(1), of "''/a''" "''/b''" h] by simp
  with r [of base h] r [of base' h'] show ?thesis by simp
qed

text \<open>The instance of C3 for the bases \<open>/a\<close> and \<open>x/y/z\<close> and the addition \<open>/b\<close>.\<close>

theorem pname_append_absolute_witness:
  "(\<forall>n. (\<lambda>_. True) n) \<and> ''/b'' \<noteq> [] \<and> is_sep (hd ''/b'') \<and>
   fst (pname_append (\<lambda>_. True) ''/a'' ''/b'' heap0) = Inr ''/b'' \<and>
   fst (pname_append (\<lambda>_. True) ''/a'' ''/b'' heap0) =
   fst (pname_append (\<lambda>_. True) ''x/y/z'' ''/b'' heap0)"
proof -
  have a: "\<forall>n::nat. (\<lambda>_. True) n" by simp
  have b: "''/b'' \<noteq> []" by simp
  have c: "is_sep (hd ''/b'')" by (simp add: is_sep_def)
  note t = pname_append_absolute [OF a b c, of "''/a''" heap0 "''x/y/z''" heap0]
  from t have "fst (pname_append (\<lambda>_. True) ''/a'' ''/b'' heap0) = Inr ''/b''"
    by (rule conjunct2 [THEN conjunct2])
  moreover from t have "fst (pname_append (\<lambda>_. True) ''/a'' ''/b'' heap0) =
      fst (pname_append (\<lambda>_. True) ''x/y/z'' ''/b'' heap0)"
    by (rule conjunct2 [THEN conjunct1])
  ultimately show ?thesis using a b c by blast
qed

text \<open>
  Claim C8. When one of the calls of \<open>pfs_malloc\<close> made during \<open>pname_append\<close> finds no
  memory, whether while scanning either input or for the output string, the operation
  returns \<open>NULL\<close> and the heap holds exactly the blocks that it held before: every node
  and sentinel allocated on the way is released, and no string is returned.
\<close>

theorem pname_append_nomem:
  assumes "heap_ok h" and "pname_append orc psPath1 psPath2 h = (r, h')"
    and "\<exists>n. calls h \<le> n \<and> n < calls h' \<and> \<not> orc n"
  shows "r = Inl OutOfMemory \<and> live h' = live h"
  using pname_append_heap [OF assms(2,1)] assms(3) by simp

text \<open>
  The instance of C8 where the sixth allocation fails: the two sentinels and the nodes
  for \<open>a\<close>, \<open>b\<close> and \<open>c\<close> are allocated, and the block for the output string is
  refused.
\<close>

theorem pname_append_nomem_witness:
  "heap_ok heap0 \<and>
   pname_append (\<lambda>n. n \<noteq> 5) ''a/b'' ''c'' heap0 = (Inl OutOfMemory, \<lparr>calls = 6, live = {}\<rparr>) \<and>
   (\<exists>n. calls heap0 \<le> n \<and> n < calls \<lparr>calls = 6, live = {}\<rparr> \<and> \<not> (\<lambda>n. n \<noteq> 5) n) \<and>
   live \<lparr>calls = 6, live = {}\<rparr> = live heap0"
proof -
  have a: "heap_ok heap0" by (simp add: heap_ok_def heap0_def)
  have b: "pname_append (\<lambda>n. n \<noteq> 5) ''a/b'' ''c'' heap0 =
           (Inl OutOfMemory, \<lparr>calls = 6, live = {}\<rparr>)"
    by code_simp
  have c: "\<exists>n. calls heap0 \<le> n \<and> n < calls \<lparr>calls = 6, live = {}\<rparr> \<and> \<not> (\<lambda>n. n \<noteq> 5) n"
    by (intro exI [of _ 5]) (simp add: heap0_def)
  from pname_append_nomem [OF a b c] a b c show ?thesis by simp
qed

text \<open>
  Claim C9. Replacing every backslash of both inputs by \<open>/\<close> changes nothing in what
  \<open>pname_append\<close> does. In the list that \<open>pname_create\<close> builds, two plain names with
  a run of separators between them, each a \<open>/\<close> or a backslash, are two segments, and
  an input that begins with a backslash has the root segment first, followed by the
  same segments as with a leading \<open>/\<close>. A returned string is the serialization of the
  surviving segments, which puts \<open>/\<close> before each of them, and contains no backslash;
  with every allocation succeeding and a segment surviving, that string is returned. So
  for plain names \<open>u\<close>, \<open>v\<close> and \<open>w\<close>, a run of separators of either kind between \<open>u\<close>
  and \<open>v\<close>, and any run of them in front, appending \<open>w\<close> returns \<open>/u/v/w\<close>.
\<close>

theorem pname_append_backslash:
  "pname_append orc (map to_slash psPath1) (map to_slash psPath2) h =
     pname_append orc psPath1 psPath2 h \<and>
   (\<forall>u v seps a pn h'.
      CHR ''/'' \<notin> set (u @ v) \<and> CHR 0x5C \<notin> set (u @ v) \<and>
      u \<noteq> [] \<and> u \<noteq> ''.'' \<and> v \<noteq> [] \<and> v \<noteq> ''.'' \<and>
      seps \<noteq> [] \<and> set seps \<subseteq> {CHR ''/'', CHR 0x5C} \<and>
      pname_create orc (u @ seps @ v) h = (Some (a, pn), h') \<longrightarrow>
      map name pn = [u, v]) \<and>
   (\<forall>s a pn h'.
      pname_create orc (CHR 0x5C # s) h = (Some (a, pn), h') \<longrightarrow>
      map name pn = rootdir # pieces s \<and> map name pn = segments (CHR ''/'' # s)) \<and>
   (\<forall>r. fst (pname_append orc psPath1 psPath2 h) = Inr r \<longrightarrow>
      r = serialize (survivors psPath1 psPath2) \<and> CHR 0x5C \<notin> set r) \<and>
   ((\<forall>n. orc n) \<and> survivors psPath1 psPath2 \<noteq> [] \<longrightarrow>
      fst (pname_append orc psPath1 psPath2 h) = Inr (serialize (survivors psPath1 psPath2))) \<and>
   (\<forall>lead u seps v w.
      (\<forall>n. orc n) \<and>
      CHR ''/'' \<notin> set (u @ v @ w) \<and> CHR 0x5C \<notin> set (u @ v @ w) \<and>
      u \<noteq> [] \<and> u \<noteq> ''.'' \<and> v \<noteq> [] \<and> v \<noteq> ''.'' \<and>
      w \<noteq> [] \<and> w \<noteq> ''.'' \<and> w \<noteq> ''..'' \<and>
      seps \<noteq> [] \<and> set seps \<subseteq> {CHR ''/'', CHR 0x5C} \<and>
      set lead \<subseteq> {CHR ''/'', CHR 0x5C} \<longrightarrow>
      fst (pname_append orc (lead @ u @ seps @ v) w h) =
        Inr (CHR ''/'' # u @ CHR ''/'' # v @ CHR ''/'' # w))"
proof -
  have split: "map name pn = [u, v]"
    if "CHR ''/'' \<notin> set (u @ v) \<and> CHR 0x5C \<notin> set (u @ v) \<and>
        u \<noteq> [] \<and> u \<noteq> ''.'' \<and> v \<noteq> [] \<and> v \<noteq> ''.'' \<and>
        seps \<noteq> [] \<and> set seps \<subseteq> {CHR ''/'', CHR 0x5C} \<and>
        pname_create orc (u @ seps @ v) h = (Some (a, pn), h')"
    for u v seps a pn h'
  proof -
    from that have nu: "\<forall>c \<in> set u. \<not> is_sep c" and nv: "\<forall>c \<in> set v. \<not> is_sep c"
      by (auto simp: is_sep_def)
    from that have sp: "\<forall>c \<in> set seps. is_sep c" by (auto simp: is_sep_def)
    from that have ne: "u \<noteq> []" "u \<noteq> ''.''" "v \<noteq> []" "v \<noteq> ''.''" "seps \<noteq> []" by simp_all
    from that have c: "pname_create orc (u @ seps @ v) h = (Some (a, pn), h')" by simp
    have "\<not> is_sep (hd (u @ seps @ v))" using nu ne(1) by (cases u) auto
    then have "segments (u @ seps @ v) = pieces (u @ seps @ v)"
      by (simp add: segments_def)
    also have "\<dots> = [u] @ pieces v"
      using pieces_word_run [OF nu ne(5) sp, of v] ne(1,2) by simp
    also have "pieces v = [v]" using pieces_word [OF nv] ne(3,4) by simp
    finally show ?thesis using pname_create_Some [OF c] by simp
  qed
  have lead: "map name pn = rootdir # pieces s \<and> map name pn = segments (CHR ''/'' # s)"
    if c: "pname_create orc (CHR 0x5C # s) h = (Some (a, pn), h')" for s a pn h'
  proof -
    have "segments (CHR 0x5C # s) = rootdir # pieces s"
      by (simp add: segments_def is_sep_def pieces_sep)
    moreover have "segments (CHR ''/'' # s) = rootdir # pieces s"
      by (simp add: segments_def is_sep_def pieces_sep)
    ultimately show ?thesis using pname_create_Some [OF c] by simp
  qed
  have res: "r = serialize (survivors psPath1 psPath2) \<and> CHR 0x5C \<notin> set r"
    if "fst (pname_append orc psPath1 psPath2 h) = Inr r" for r
  proof -
    from pname_append_Inr [OF that] have r: "r = serialize (survivors psPath1 psPath2)" by simp
    moreover have "\<forall>w \<in> set (survivors psPath1 psPath2). seg_ok w"
      by (simp add: survivors_seg_ok)
    ultimately show ?thesis by (simp add: serialize_no_backslash)
  qed
  have tot: "fst (pname_append orc psPath1 psPath2 h) = Inr (serialize (survivors psPath1 psPath2))"
    if "(\<forall>n. orc n) \<and> survivors psPath1 psPath2 \<noteq> []"
    using that pname_append_names [of orc psPath1 psPath2 h] by simp
  have inv: "pname_append orc (map to_slash psPath1) (map to_slash psPath2) h =
     pname_append orc psPath1 psPath2 h"
    by (rule pname_append_to_slash)
  have words: "fst (pname_append orc (lead @ u @ seps @ v) w h) =
        Inr (CHR ''/'' # u @ CHR ''/'' # v @ CHR ''/'' # w)"
    if "(\<forall>n. orc n) \<and>
        CHR ''/'' \<notin> set (u @ v @ w) \<and> CHR 0x5C \<notin> set (u @ v @ w) \<and>
        u \<noteq> [] \<and> u \<noteq> ''.'' \<and> v \<noteq> [] \<and> v \<noteq> ''.'' \<and>
        w \<noteq> [] \<and> w \<noteq> ''.'' \<and> w \<noteq> ''..'' \<and>
        seps \<noteq> [] \<and> set seps \<subseteq> {CHR ''/'', CHR 0x5C} \<and>
        set lead \<subseteq> {CHR ''/'', CHR 0x5C}"
    for lead u seps v w
  proof -
    from that have ok: "\<forall>n. orc n" by simp
    from that have u: "CHR ''/'' \<notin> set u" "CHR 0x5C \<notin> set u" "u \<noteq> []" "u \<noteq> ''.''"
      and v: "CHR ''/'' \<notin> set v" "CHR 0x5C \<notin> set v" "v \<noteq> []" "v \<noteq> ''.''"
      and w: "CHR ''/'' \<notin> set w" "CHR 0x5C \<notin> set w" "w \<noteq> []" "w \<noteq> ''.''" "w \<noteq> ''..''"
      and s: "seps \<noteq> []" "set seps \<subseteq> {CHR ''/'', CHR 0x5C}"
      and l: "set lead \<subseteq> {CHR ''/'', CHR 0x5C}"
      by simp_all
    show ?thesis by (rule pname_append_words [OF ok u v w s l])
  qed
  from inv split lead res tot words show ?thesis by blast
qed

text \<open>
  Instances of C9: inputs written with backslashes, the names \<open>a\<close> and \<open>b\<close> with a run
  of three mixed separators between them, and a leading backslash.
\<close>

theorem pname_append_backslash_witness:
  "pname_append (\<lambda>_. True) [CHR 0x5C, CHR ''a'', CHR 0x5C, CHR 0x5C, CHR ''b''] ''c'' heap0 =
     pname_append (\<lambda>_. True) ''/a//b'' ''c'' heap0 \<and>
   pname_create (\<lambda>_. True) (''a'' @ [CHR 0x5C, CHR ''/'', CHR 0x5C] @ ''b'') heap0 =
     (Some (0, [\<lparr>blk = 1, name = ''a''\<rparr>, \<lparr>blk = 2, name = ''b''\<rparr>]),
      \<lparr>calls = 3, live = {0, 1, 2}\<rparr>) \<and>
   map name [\<lparr>blk = 1, name = ''a''\<rparr>, \<lparr>blk = 2, name = ''b''\<rparr>] = [''a'', ''b''] \<and>
   pname_create (\<lambda>_. True) (CHR 0x5C # ''a'') heap0 =
     (Some (0, [\<lparr>blk = 1, name = ''/''\<rparr>, \<lparr>blk = 2, name = ''a''\<rparr>]),
      \<lparr>calls = 3, live = {0, 1, 2}\<rparr>) \<and>
   map name [\<lparr>blk = 1, name = ''/''\<rparr>, \<lparr>blk = 2, name = ''a''\<rparr>] = segments ''/a'' \<and>
   (\<forall>n. (\<lambda>_. True) n) \<and>
   survivors [CHR 0x5C, CHR ''a'', CHR 0x5C, CHR 0x5C, CHR ''b''] ''c'' \<noteq> [] \<and>
   fst (pname_append (\<lambda>_. True) [CHR 0x5C, CHR ''a'', CHR 0x5C, CHR 0x5C, CHR ''b''] ''c'' heap0) =
     Inr ''/a/b/c'' \<and>
   CHR 0x5C \<notin> set ''/a/b/c'' \<and>
   fst (pname_append (\<lambda>_. True) ([CHR 0x5C] @ ''a'' @ [CHR ''/'', CHR 0x5C] @ ''b'') ''c'' heap0) =
     Inr (CHR ''/'' # ''a'' @ CHR ''/'' # ''b'' @ CHR ''/'' # ''c'')"
proof -
  let ?p = "[CHR 0x5C, CHR ''a'', CHR 0x5C, CHR 0x5C, CHR ''b'']"
  let ?seps = "[CHR 0x5C, CHR ''/'', CHR 0x5C]"
  let ?ab = "[\<lparr>blk = 1, name = ''a''\<rparr>, \<lparr>blk = 2, name = ''b''\<rparr>]"
  let ?ra = "[\<lparr>blk = 1, name = ''/''\<rparr>, \<lparr>blk = 2, name = ''a''\<rparr>]"
  let ?h3 = "\<lparr>calls = 3, live = {0, 1, 2}\<rparr>"
  note th = pname_append_backslash [of "\<lambda>_. True" ?p "''c''" heap0]
  have m: "map to_slash ?p = ''/a//b''" "map to_slash ''c'' = ''c''"
    by (simp_all add: to_slash_def)
  from th have "pname_append (\<lambda>_. True) ''/a//b'' ''c'' heap0 =
      pname_append (\<lambda>_. True) ?p ''c'' heap0"
    unfolding m by (rule conjunct1)
  then have inv: "pname_append (\<lambda>_. True) ?p ''c'' heap0 =
      pname_append (\<lambda>_. True) ''/a//b'' ''c'' heap0"
    by (rule sym)
  have c1: "pname_create (\<lambda>_. True) (''a'' @ ?seps @ ''b'') heap0 = (Some (0, ?ab), ?h3)"
    by code_simp
  have pre: "CHR ''/'' \<notin> set (''a'' @ ''b'') \<and> CHR 0x5C \<notin> set (''a'' @ ''b'') \<and>
      ''a'' \<noteq> [] \<and> ''a'' \<noteq> ''.'' \<and> ''b'' \<noteq> [] \<and> ''b'' \<noteq> ''.'' \<and>
      ?seps \<noteq> [] \<and> set ?seps \<subseteq> {CHR ''/'', CHR 0x5C} \<and>
      pname_create (\<lambda>_. True) (''a'' @ ?seps @ ''b'') heap0 = (Some (0, ?ab), ?h3)"
    using c1 by simp
  from th [THEN conjunct2, THEN conjunct1, rule_format, OF pre]
  have sp: "map name ?ab = [''a'', ''b'']" .
  have c2: "pname_create (\<lambda>_. True) (CHR 0x5C # ''a'') heap0 = (Some (0, ?ra), ?h3)"
    by code_simp
  from th [THEN conjunct2, THEN conjunct2, THEN conjunct1, rule_format, OF c2]
  have ld: "map name ?ra = segments ''/a''" by (rule conjunct2)
  have ok: "\<forall>n::nat. (\<lambda>_. True) n" by simp
  have ne: "survivors ?p ''c'' \<noteq> []" by code_simp
  have sv: "serialize (survivors ?p ''c'') = ''/a/b/c''" by code_simp
  from th [THEN conjunct2, THEN conjunct2, THEN conjunct2, THEN conjunct2, THEN conjunct1] ok ne
  have r: "fst (pname_append (\<lambda>_. True) ?p ''c'' heap0) = Inr ''/a/b/c''"
    unfolding sv by blast
  from th [THEN conjunct2, THEN conjunct2, THEN conjunct2, THEN conjunct1, rule_format, OF r]
  have nb: "CHR 0x5C \<notin> set ''/a/b/c''" by (rule conjunct2)
  have pre6: "(\<forall>n::nat. (\<lambda>_. True) n) \<and>
      CHR ''/'' \<notin> set (''a'' @ ''b'' @ ''c'') \<and> CHR 0x5C \<notin> set (''a'' @ ''b'' @ ''c'') \<and>
      ''a'' \<noteq> [] \<and> ''a'' \<noteq> ''.'' \<and> ''b'' \<noteq> [] \<and> ''b'' \<noteq> ''.'' \<and>
      ''c'' \<noteq> [] \<and> ''c'' \<noteq> ''.'' \<and> ''c'' \<noteq> ''..'' \<and>
      [CHR ''/'', CHR 0x5C] \<noteq> [] \<and> set [CHR ''/'', CHR 0x5C] \<subseteq> {CHR ''/'', CHR 0x5C} \<and>
      set [CHR 0x5C] \<subseteq> {CHR ''/'', CHR 0x5C}"
    by simp
  from th [THEN conjunct2, THEN conjunct2, THEN conjunct2, THEN conjunct2, THEN conjunct2,
      rule_format, OF pre6]
  have wd: "fst (pname_append (\<lambda>_. True) ([CHR 0x5C] @ ''a'' @ [CHR ''/'', CHR 0x5C] @ ''b'') ''c'' heap0) =
      Inr (CHR ''/'' # ''a'' @ CHR ''/'' # ''b'' @ CHR ''/'' # ''c'')" .
  from inv c1 sp c2 ld ok ne r nb wd show ?thesis by blast
qed

section \<open>Properties of the UART ring buffer\<close>

lemma and_511: "(x::int) AND 511 = x mod 512"
proof -
  have "(511::int) = mask 9" by (simp add: mask_eq_exp_minus_1)
  then show ?thesis
    using take_bit_eq_mask [of 9 x] take_bit_eq_mod [of 9 x] by simp
qed

lemma mod512_cases:
  fixes x :: int
  assumes "- 512 \<le> x" and "x < 1024"
  shows "x mod 512 = (if x < 0 then x + 512 else if x < 512 then x else x - 512)"
proof -
  consider "x < 0" | "0 \<le> x \<and> x < 512" | "512 \<le> x" by linarith
  then show ?thesis
  proof cases
    case 1
    have "x mod 512 = (x + 512) mod 512" by simp
    also have "\<dots> = x + 512" using 1 assms by (intro mod_pos_pos_trivial) simp_all
    finally show ?thesis using 1 by simp
  next
    case 2
    then have "x mod 512 = x" by (intro mod_pos_pos_trivial) simp_all
    with 2 show ?thesis by simp
  next
    case 3
    have "x mod 512 = (x - 512) mod 512" by (simp add: mod_diff_right_eq [symmetric])
    also have "\<dots> = x - 512" using 3 assms by (intro mod_pos_pos_trivial) simp_all
    finally show ?thesis using 3 by simp
  qed
qed

lemma ring_full_iff:
  fixes r w :: int
  assumes "0 \<le> r" "r < 512" "0 \<le> w" "w < 512"
  shows "w = (r - 1) mod 512 \<longleftrightarrow> (w - r) mod 512 = 511"
  using assms by (auto simp: mod512_cases)

lemma ring_full_iff':
  fixes r w :: int
  assumes "0 \<le> r" "r < 512" "0 \<le> w" "w < 512"
  shows "(w + 1) mod 512 = r \<longleftrightarrow> (w - r) mod 512 = 511"
  using assms by (auto simp: mod512_cases)

lemma ring_push:
  fixes r w :: int
  assumes "0 \<le> r" "r < 512" "0 \<le> w" "w < 512" "w \<noteq> (r - 1) mod 512"
  shows "((w + 1) mod 512 - r) mod 512 = (w - r) mod 512 + 1"
  using assms by (simp add: mod512_cases split: if_splits)


lemma ring_empty_iff:
  fixes r w :: int
  assumes "0 \<le> r" "r < 512" "0 \<le> w" "w < 512"
  shows "(w - r) mod 512 = 0 \<longleftrightarrow> r = w"
  using assms by (auto simp: mod512_cases)

lemma ring_index:
  fixes r w i :: int
  assumes "0 \<le> r" "r < 512" "0 \<le> w" "w < 512" "0 \<le> i" "i < (w - r) mod 512"
  shows "(r + i) mod 512 \<noteq> w"
  using assms by (simp add: mod512_cases split: if_splits)

lemma ring_index_last:
  fixes r w :: int
  assumes "0 \<le> r" "r < 512" "0 \<le> w" "w < 512"
  shows "(r + (w - r) mod 512) mod 512 = w"
  using assms by (simp add: mod512_cases)


lemma dev_okD:
  assumes "dev_ok pud"
  shows "0 \<le> rptr pud" "rptr pud < 512" "0 \<le> wptr pud" "wptr pud < 512"
    "length (data pud) = 512"
  using assms by (simp_all add: dev_ok_def NDATA_def)

lemma pending_count_eq: "pending_count pud = (wptr pud - rptr pud) mod 512"
  by (simp add: pending_count_def NDATA_def and_511)

lemma pending_count_range: "0 \<le> pending_count pud" "pending_count pud < 512"
  by (simp_all add: pending_count_eq)

lemma length_pending: "length (pending pud) = nat (pending_count pud)"
  by (simp add: pending_def)

lemma pending_empty_iff:
  assumes "dev_ok pud"
  shows "pending_count pud = 0 \<longleftrightarrow> rptr pud = wptr pud"
  using ring_empty_iff [OF dev_okD(1-4) [OF assms]] by (simp add: pending_count_eq)

lemma push_step:
  fixes b :: byte
  assumes ok: "dev_ok pud" and room: "wptr pud \<noteq> (rptr pud - 1) AND (NDATA - 1)"
  defines "pud2 \<equiv> pud\<lparr>data := (data pud)[nat (wptr pud) := b],
                        wptr := (wptr pud + 1) AND (NDATA - 1)\<rparr>"
  shows "dev_ok pud2" and "pending_count pud2 = pending_count pud + 1"
    and "pending pud2 = pending pud @ [b]"
proof -
  note d = dev_okD [OF ok]
  have room': "wptr pud \<noteq> (rptr pud - 1) mod 512"
    using room by (simp add: NDATA_def and_511)
  have w2: "wptr pud2 = (wptr pud + 1) mod 512"
    by (simp add: pud2_def NDATA_def and_511)
  have r2: "rptr pud2 = rptr pud" by (simp add: pud2_def)
  have d2: "data pud2 = (data pud)[nat (wptr pud) := b]" by (simp add: pud2_def)
  show "dev_ok pud2"
    using d by (simp add: dev_ok_def NDATA_def w2 r2 d2)
  show c2: "pending_count pud2 = pending_count pud + 1"
    unfolding pending_count_eq w2 r2 using d(1-4) room' by (rule ring_push)
  let ?n = "nat (pending_count pud)"
  have n2: "nat (pending_count pud2) = Suc ?n"
    using c2 pending_count_range(1) [of pud] by simp
  have old: "data pud2 ! nat ((rptr pud + int i) mod 512) = data pud ! nat ((rptr pud + int i) mod 512)"
    if "i < ?n" for i
  proof -
    from that have "int i < (wptr pud - rptr pud) mod 512"
      by (simp add: pending_count_eq)
    with d(1-4) have "(rptr pud + int i) mod 512 \<noteq> wptr pud"
      by (intro ring_index) simp_all
    moreover have "0 \<le> (rptr pud + int i) mod 512" by simp
    ultimately have "nat ((rptr pud + int i) mod 512) \<noteq> nat (wptr pud)"
      using d(3) by linarith
    then show ?thesis by (simp add: d2)
  qed
  have new: "data pud2 ! nat ((rptr pud + int ?n) mod 512) = b"
  proof -
    have "int ?n = (wptr pud - rptr pud) mod 512"
      using pending_count_range(1) [of pud] by (simp add: pending_count_eq)
    then have "(rptr pud + int ?n) mod 512 = wptr pud"
      using ring_index_last [OF d(1-4)] by simp
    then show ?thesis using d(3-5) by (simp add: d2)
  qed
  have "pending pud2 = map (\<lambda>i. data pud2 ! nat ((rptr pud + int i) mod 512)) [0..<Suc ?n]"
    by (simp only: pending_def n2 r2 NDATA_def)
  also have "\<dots> = map (\<lambda>i. data pud2 ! nat ((rptr pud + int i) mod 512)) [0..<?n] @ [b]"
    using new by simp
  also have "map (\<lambda>i. data pud2 ! nat ((rptr pud + int i) mod 512)) [0..<?n] = pending pud"
    unfolding pending_def NDATA_def using old by (intro map_cong) simp_all
  finally show "pending pud2 = pending pud @ [b]" .
qed


lemma full_iff:
  assumes "dev_ok pud"
  shows "wptr pud = (rptr pud - 1) AND (NDATA - 1) \<longleftrightarrow> pending_count pud = 511"
  using ring_full_iff [OF dev_okD(1-4) [OF assms]]
  by (simp add: pending_count_eq NDATA_def and_511)

lemma full_iff':
  assumes "dev_ok pud"
  shows "(wptr pud + 1) AND (NDATA - 1) = rptr pud \<longleftrightarrow> pending_count pud = 511"
  using ring_full_iff' [OF dev_okD(1-4) [OF assms]]
  by (simp add: pending_count_eq NDATA_def and_511)

lemma uart_input_loop_post:
  assumes "dev_ok pud" and "wend = (rptr pud - 1) AND (NDATA - 1)"
    and "uart_input_loop c wend (pud, hw) = (pud', hw')"
  shows "dev_ok pud' \<and> rptr pud' = rptr pud \<and> mode pud' = mode pud \<and> tout pud' = tout pud \<and>
         pending_count pud' = min (pending_count pud + int (length (rx_fifo hw))) 511 \<and>
         pending pud' @ rx_fifo hw' = pending pud @ rx_fifo hw \<and>
         (rx_fifo hw' \<noteq> [] \<longrightarrow> pending_count pud' = 511) \<and>
         line hw' = line hw \<and> hw_rts hw' = hw_rts hw \<and> hw_rxim hw' = hw_rxim hw"
  using assms
proof (induction c wend "(pud, hw)" arbitrary: pud hw rule: uart_input_loop.induct)
  case (1 c wend pud hw)
  note ok = "1.prems"(1) and wend = "1.prems"(2) and run = "1.prems"(3)
  show ?case
  proof (cases "wptr pud \<noteq> wend \<and> rx_fifo hw \<noteq> []")
    case False
    with run have eq: "pud' = pud" "hw' = hw"
      by (simp_all add: uart_input_loop.simps)
    have "pending_count pud = min (pending_count pud + int (length (rx_fifo hw))) 511"
    proof (cases "rx_fifo hw = []")
      case True
      then show ?thesis using pending_count_range(2) [of pud] by simp
    next
      case ne: False
      with False have "wptr pud = wend" by simp
      with wend full_iff [OF ok] show ?thesis by simp
    qed
    moreover have "rx_fifo hw \<noteq> [] \<longrightarrow> pending_count pud = 511"
      using False wend full_iff [OF ok] by auto
    ultimately show ?thesis using eq ok by simp
  next
    case True
    define b where "b = hd (rx_fifo hw)"
    define pud1 where "pud1 = pud\<lparr>data := (data pud)[nat (wptr pud) := b]\<rparr>"
    define hw1 where "hw1 = hw\<lparr>rx_fifo := tl (rx_fifo hw)\<rparr>"
    define hw2 where "hw2 = (if mode pud1 AND IOC_MD_ECHO c \<noteq> 0
                    then hw1\<lparr>tx_out := tx_out hw1 @ [data pud1 ! nat (wptr pud1)]\<rparr>
                    else hw1)"
    define pud2 where "pud2 = pud1\<lparr>wptr := (wptr pud1 + 1) AND (NDATA - 1)\<rparr>"
    have p2: "pud2 = pud\<lparr>data := (data pud)[nat (wptr pud) := b],
                        wptr := (wptr pud + 1) AND (NDATA - 1)\<rparr>"
      by (simp add: pud2_def pud1_def)
    have room: "wptr pud \<noteq> (rptr pud - 1) AND (NDATA - 1)" using True wend by simp
    note ps = push_step [OF ok room, of b, folded p2]
    have r2: "rptr pud2 = rptr pud" "mode pud2 = mode pud" "tout pud2 = tout pud"
      by (simp_all add: p2)
    have h2: "rx_fifo hw2 = tl (rx_fifo hw)" "line hw2 = line hw"
      "hw_rts hw2 = hw_rts hw" "hw_rxim hw2 = hw_rxim hw"
      by (simp_all add: hw2_def hw1_def)
    have run2: "uart_input_loop c wend (pud2, hw2) = (pud', hw')"
      using run True
      by (subst (asm) uart_input_loop.simps)
         (auto simp add: Let_def pud2_def pud1_def hw2_def hw1_def b_def)
    have wend2: "wend = (rptr pud2 - 1) AND (NDATA - 1)" using wend r2 by simp
    from "1.hyps" [OF True pud1_def [unfolded b_def] hw1_def hw2_def pud2_def ps(1) wend2 run2]
    have ih: "dev_ok pud'" "rptr pud' = rptr pud2" "mode pud' = mode pud2" "tout pud' = tout pud2"
      "pending_count pud' = min (pending_count pud2 + int (length (rx_fifo hw2))) 511"
      "pending pud' @ rx_fifo hw' = pending pud2 @ rx_fifo hw2"
      "rx_fifo hw' \<noteq> [] \<longrightarrow> pending_count pud' = 511"
      "line hw' = line hw2" "hw_rts hw' = hw_rts hw2" "hw_rxim hw' = hw_rxim hw2"
      by blast+
    have len: "int (length (rx_fifo hw)) = int (length (rx_fifo hw2)) + 1"
      using True h2(1) by (cases "rx_fifo hw") simp_all
    have "pending_count pud' = min (pending_count pud + int (length (rx_fifo hw))) 511"
      using ih(5) ps(2) len by simp
    moreover have "pending pud' @ rx_fifo hw' = pending pud @ rx_fifo hw"
      using ih(6) ps(3) h2(1) True by (cases "rx_fifo hw") (simp_all add: b_def)
    ultimately show ?thesis
      using ih r2 h2 by simp
  qed
qed

lemma uart_input_post:
  assumes "dev_ok pud" and "uart_input c (pud, hw) = (pud', hw')"
  shows "dev_ok pud' \<and> rptr pud' = rptr pud \<and> mode pud' = mode pud \<and> tout pud' = tout pud \<and>
         pending_count pud' = min (pending_count pud + int (length (rx_fifo hw))) 511 \<and>
         pending pud' @ rx_fifo hw' = pending pud @ rx_fifo hw \<and>
         (rx_fifo hw' \<noteq> [] \<longrightarrow> pending_count pud' = 511) \<and>
         line hw' = line hw \<and>
         (pending_count pud' = 511 \<longrightarrow> \<not> hw_rts hw' \<and> \<not> hw_rxim hw')"
proof -
  define wend where "wend = (rptr pud - 1) AND (NDATA - 1)"
  obtain pud1 hw1 where l: "uart_input_loop c wend (pud, hw) = (pud1, hw1)"
    by (cases "uart_input_loop c wend (pud, hw)") auto
  note p = uart_input_loop_post [OF assms(1) wend_def l]
  from p have ok1: "dev_ok pud1" and r1: "rptr pud1 = rptr pud" by simp_all
  have f: "wptr pud1 = wend \<longleftrightarrow> pending_count pud1 = 511"
    using full_iff [OF ok1] r1 by (simp add: wend_def)
  have "pud' = pud1" "rx_fifo hw' = rx_fifo hw1" "line hw' = line hw1"
    "pending_count pud1 = 511 \<longrightarrow> \<not> hw_rts hw' \<and> \<not> hw_rxim hw'"
    using assms(2) l f by (auto simp: uart_input_def Let_def wend_def split: if_splits)
  with p show ?thesis by auto
qed



lemma stored_snoc:
  assumes "\<forall>b \<in> set raw. uint b \<noteq> mode pud AND 0xFF"
  shows "\<not> (uint b = mode pud AND 0xFF) \<Longrightarrow> stored c pud (raw @ [b]) = raw @ [b]"
    and "uint b = mode pud AND 0xFF \<Longrightarrow>
         stored c pud (raw @ [b]) = raw @ [if mode pud AND IOC_MD_TLF c \<noteq> 0 then 0x0A else b]"
  by (simp_all add: stored_def)


lemma stored_single:
  "uint b \<noteq> mode pud AND 0xFF \<Longrightarrow> stored c pud [b] = [b]"
  by (simp add: stored_def)







section \<open>The claims about the flash file system and the UART device\<close>

text \<open>
  Claim C5. With the block for the instance allocated, \<open>pfs_ffs_create\<close> mounts once.
  When that mount succeeds nothing else is called. When it fails (a negative result),
  \<open>lfs_format\<close> is called exactly once and, if it returns 0, \<open>lfs_mount\<close> exactly once
  more; there is no further call. When the format or the second mount fails, the result
  is \<open>NULL\<close> and the block of the instance is freed. When the first mount fails and the
  mount after the format succeeds, the result is the instance.
\<close>

theorem pfs_ffs_create_mount:
  assumes "orc (calls h)" and "heap_ok h"
    and "lfs_mount dev = (r1, d1)" and "lfs_format d1 = (rf, d2)" and "lfs_mount d2 = (r2, d3)"
    and "pfs_ffs_create orc lfs_mount lfs_format dev h = (res, tr, dev', h')"
  shows "(0 \<le> r1 \<longrightarrow> res = Some (calls h) \<and> tr = [LfsMount] \<and> dev' = d1) \<and>
         (r1 < 0 \<longrightarrow> tr = [LfsMount, LfsFormat] @ (if rf = 0 then [LfsMount] else [])) \<and>
         (r1 < 0 \<and> (rf < 0 \<or> rf = 0 \<and> r2 < 0) \<longrightarrow> res = None \<and> live h' = live h) \<and>
         (r1 < 0 \<and> rf = 0 \<and> 0 \<le> r2 \<longrightarrow>
            res = Some (calls h) \<and> dev' = d3 \<and> live h' = insert (calls h) (live h))"
proof -
  have nl: "calls h \<notin> live h" using assms(2) by (auto simp: heap_ok_def)
  show ?thesis
    using assms(1,3-6) nl
    by (auto simp: pfs_ffs_create_def pfs_malloc_def pfs_free_def split: if_splits)
qed


text \<open>
  Instances of C5 for a device that mounts only once it is formatted (state 1): an
  unformatted device with a format that works, a formatted device, an unformatted
  device whose format fails, and one whose format reports success but leaves it
  unmountable.
\<close>

theorem pfs_ffs_create_mount_witness:
  "pfs_ffs_create (\<lambda>_. True) (\<lambda>d::nat. (if d = 1 then 0 else - 84 :: int, d))
       (\<lambda>d::nat. (0 :: int, 1 :: nat)) 0 heap0 =
     (Some 0, [LfsMount, LfsFormat, LfsMount], 1, \<lparr>calls = 1, live = {0}\<rparr>) \<and>
   pfs_ffs_create (\<lambda>_. True) (\<lambda>d::nat. (if d = 1 then 0 else - 84 :: int, d))
       (\<lambda>d::nat. (0 :: int, 1 :: nat)) 1 heap0 =
     (Some 0, [LfsMount], 1, \<lparr>calls = 1, live = {0}\<rparr>) \<and>
   pfs_ffs_create (\<lambda>_. True) (\<lambda>d::nat. (if d = 1 then 0 else - 84 :: int, d))
       (\<lambda>d::nat. (- 5 :: int, d)) 0 heap0 =
     (None, [LfsMount, LfsFormat], 0, \<lparr>calls = 1, live = {}\<rparr>) \<and>
   pfs_ffs_create (\<lambda>_. True) (\<lambda>d::nat. (if d = 1 then 0 else - 84 :: int, d))
       (\<lambda>d::nat. (0 :: int, 2 :: nat)) 0 heap0 =
     (None, [LfsMount, LfsFormat, LfsMount], 2, \<lparr>calls = 1, live = {}\<rparr>)"
proof -
  define mount where "mount = (\<lambda>d::nat. (if d = 1 then 0 else - 84 :: int, d))"
  define good where "good = (\<lambda>d::nat. (0 :: int, 1 :: nat))"
  define bad where "bad = (\<lambda>d::nat. (- 5 :: int, d))"
  define vain where "vain = (\<lambda>d::nat. (0 :: int, 2 :: nat))"
  define ok where "ok = (\<lambda>n::nat. True)"
  have a: "ok (calls heap0)" by (simp add: ok_def)
  have b: "heap_ok heap0" by (simp add: heap_ok_def heap0_def)
  have m0: "mount 0 = (- 84, 0)" and m1: "mount 1 = (0, 1)" and m2: "mount 2 = (- 84, 2)"
    by (simp_all add: mount_def)
  have g0: "good 0 = (0, 1)" and g1: "good 1 = (0, 1)" by (simp_all add: good_def)
  have b0: "bad 0 = (- 5, 0)" by (simp add: bad_def)
  have v0: "vain 0 = (0, 2)" by (simp add: vain_def)
  have h1: "\<lparr>calls = Suc 0, live = {0}\<rparr> = \<lparr>calls = 1, live = {0}\<rparr>" by simp
  obtain r1 t1 d1 k1 where c1: "pfs_ffs_create ok mount good 0 heap0 = (r1, t1, d1, k1)"
    using prod_cases4 by blast
  obtain r2 t2 d2 k2 where c2: "pfs_ffs_create ok mount good 1 heap0 = (r2, t2, d2, k2)"
    using prod_cases4 by blast
  obtain r3 t3 d3 k3 where c3: "pfs_ffs_create ok mount bad 0 heap0 = (r3, t3, d3, k3)"
    using prod_cases4 by blast
  obtain r4 t4 d4 k4 where c4: "pfs_ffs_create ok mount vain 0 heap0 = (r4, t4, d4, k4)"
    using prod_cases4 by blast
  have s1: "k1 = \<lparr>calls = 1, live = {0}\<rparr>"
    using c1 m0 g0 m1 by (auto simp: pfs_ffs_create_def pfs_malloc_def heap0_def ok_def)
  have s2: "k2 = \<lparr>calls = 1, live = {0}\<rparr>"
    using c2 m1 by (auto simp: pfs_ffs_create_def pfs_malloc_def heap0_def ok_def)
  have s3: "k3 = \<lparr>calls = 1, live = {}\<rparr>" "d3 = 0"
    using c3 m0 b0 by (auto simp: pfs_ffs_create_def pfs_malloc_def pfs_free_def heap0_def ok_def)
  have s4: "k4 = \<lparr>calls = 1, live = {}\<rparr>" "d4 = 2"
    using c4 m0 v0 m2 by (auto simp: pfs_ffs_create_def pfs_malloc_def pfs_free_def heap0_def ok_def)
  from pfs_ffs_create_mount [OF a b m0 g0 m1 c1]
  have w1: "r1 = Some 0" "t1 = [LfsMount, LfsFormat, LfsMount]" "d1 = 1"
    by (simp_all add: heap0_def)
  from pfs_ffs_create_mount [OF a b m1 g1 m1 c2]
  have w2: "r2 = Some 0" "t2 = [LfsMount]" "d2 = 1"
    by (simp_all add: heap0_def)
  from pfs_ffs_create_mount [OF a b m0 b0 m0 c3]
  have w3: "r3 = None" "t3 = [LfsMount, LfsFormat]"
    by (simp_all add: heap0_def)
  from pfs_ffs_create_mount [OF a b m0 v0 m2 c4]
  have w4: "r4 = None" "t4 = [LfsMount, LfsFormat, LfsMount]"
    by (simp_all add: heap0_def)
  have "pfs_ffs_create ok mount good 0 heap0 =
          (Some 0, [LfsMount, LfsFormat, LfsMount], 1, \<lparr>calls = 1, live = {0}\<rparr>)"
    unfolding c1 w1 s1 ..
  moreover have "pfs_ffs_create ok mount good 1 heap0 =
          (Some 0, [LfsMount], 1, \<lparr>calls = 1, live = {0}\<rparr>)"
    unfolding c2 w2 s2 ..
  moreover have "pfs_ffs_create ok mount bad 0 heap0 =
          (None, [LfsMount, LfsFormat], 0, \<lparr>calls = 1, live = {}\<rparr>)"
    unfolding c3 w3 s3 ..
  moreover have "pfs_ffs_create ok mount vain 0 heap0 =
          (None, [LfsMount, LfsFormat, LfsMount], 2, \<lparr>calls = 1, live = {}\<rparr>)"
    unfolding c4 w4 s4 ..
  ultimately show ?thesis
    unfolding ok_def mount_def good_def bad_def vain_def by blast
qed

lemma committed_append [simp]: "committed (t @ u) = committed t @ committed u"
  by (induction t rule: committed.induct) simp_all

text \<open>
  Claim C6, as amended. \<open>uopen\<close> first calls \<open>uart_init\<close>; when that returns 0 it fails
  with no pin committed. Otherwise it handles the requested pins in the order transmit,
  receive, clear to send, ready to send, and verifies each pin just before it commits
  that pin: the pins that it has set to the UART function are the requested pins up to
  the first invalid one, so every committed pin is valid, and the invalid pin and those
  after it are not committed. When \<open>uart_init\<close> returns 0 or a requested pin is
  invalid, \<open>uopen\<close> returns false.
\<close>

theorem uopen_pins:
  assumes "uopen k uid sc pud t = (r, pud', t')"
  shows "committed t' = committed t @
           (if uart_init k uid (sc_baud sc) = 0 then []
            else map fst (takeWhile (\<lambda>(pin, func). uart_pin_valid uid func pin) (requested sc))) \<and>
         (uart_init k uid (sc_baud sc) = 0 \<or>
          (\<exists>(pin, func) \<in> set (requested sc). \<not> uart_pin_valid uid func pin) \<longrightarrow> r = Some False)"
proof (cases "uart_init k uid (sc_baud sc) = 0")
  case True
  with assms show ?thesis
    by (auto simp: uopen_def Let_def)
next
  case False
  with assms show ?thesis
    unfolding uopen_def requested_def Let_def
    by (auto split: if_splits)
qed


text \<open>
  Instances of C6 (amended) for UART 0 with the valid transmit pin 0 and the invalid
  receive pin 2: with a \<open>uart_init\<close> that works the transmit pin is committed, and with
  one that returns 0 no pin is.
\<close>

theorem uopen_pins_witness:
  "uart_init sdk_ex 0 (sc_baud sc_ex) \<noteq> 0 \<and>
   uopen sdk_ex 0 sc_ex pud_ex [] =
     (Some False, pud_ex\<lparr>rptr := 0, wptr := 0\<rparr>,
      [Critical_section_init 0, Uart_init 0 115200, Gpio_set_function 0]) \<and>
   requested sc_ex = [(0, 0), (2, 1)] \<and> uart_pin_valid 0 0 0 \<and> \<not> uart_pin_valid 0 1 2 \<and>
   committed [Critical_section_init 0, Uart_init 0 115200, Gpio_set_function 0] = [0] \<and>
   uart_init (sdk_ex\<lparr>uart_init := \<lambda>uid baud. 0\<rparr>) 0 (sc_baud sc_ex) = 0 \<and>
   uopen (sdk_ex\<lparr>uart_init := \<lambda>uid baud. 0\<rparr>) 0 sc_ex pud_ex [] =
     (Some False, pud_ex\<lparr>rptr := 0, wptr := 0\<rparr>, [Critical_section_init 0, Uart_init 0 115200]) \<and>
   committed [Critical_section_init 0, Uart_init 0 115200] = []"
proof -
  have a: "uart_init sdk_ex 0 (sc_baud sc_ex) \<noteq> 0" by (simp add: sdk_ex_def sc_ex_def)
  have b: "uopen sdk_ex 0 sc_ex pud_ex [] =
     (Some False, pud_ex\<lparr>rptr := 0, wptr := 0\<rparr>,
      [Critical_section_init 0, Uart_init 0 115200, Gpio_set_function 0])"
    by (simp add: uopen_def sdk_ex_def sc_ex_def pud_ex_def uart_pin_valid_def)
  have c: "requested sc_ex = [(0, 0), (2, 1)]" by (simp add: requested_def sc_ex_def)
  have d: "uart_pin_valid 0 0 0" "\<not> uart_pin_valid 0 1 2" by (simp_all add: uart_pin_valid_def)
  have a0: "uart_init (sdk_ex\<lparr>uart_init := \<lambda>uid baud. 0\<rparr>) 0 (sc_baud sc_ex) = 0" by simp
  have b0: "uopen (sdk_ex\<lparr>uart_init := \<lambda>uid baud. 0\<rparr>) 0 sc_ex pud_ex [] =
     (Some False, pud_ex\<lparr>rptr := 0, wptr := 0\<rparr>, [Critical_section_init 0, Uart_init 0 115200])"
    by (simp add: uopen_def sdk_ex_def sc_ex_def pud_ex_def)
  from uopen_pins [OF b] have
    "committed [Critical_section_init 0, Uart_init 0 115200, Gpio_set_function 0] =
     committed [] @ (if uart_init sdk_ex 0 (sc_baud sc_ex) = 0 then []
       else map fst (takeWhile (\<lambda>(pin, func). uart_pin_valid 0 func pin) (requested sc_ex)))"
    by (rule conjunct1)
  then have e: "committed [Critical_section_init 0, Uart_init 0 115200, Gpio_set_function 0] = [0]"
    unfolding c using d a by simp
  from uopen_pins [OF b0] have
    "committed [Critical_section_init 0, Uart_init 0 115200] =
     committed [] @ (if uart_init (sdk_ex\<lparr>uart_init := \<lambda>uid baud. 0\<rparr>) 0 (sc_baud sc_ex) = 0 then []
       else map fst (takeWhile (\<lambda>(pin, func). uart_pin_valid 0 func pin) (requested sc_ex)))"
    by (rule conjunct1)
  then have e0: "committed [Critical_section_init 0, Uart_init 0 115200] = []"
    using a0 by simp
  from a b c d e a0 b0 e0 show ?thesis by blast
qed

text \<open>
  Claim C6 as the spec states it asks that no pin is reassigned when a requested pin is
  invalid. With a valid transmit pin and an invalid receive pin, \<open>uopen\<close> fails after
  it has set the transmit pin to the UART function.
\<close>

theorem uopen_pins_counterexample:
  "0 \<le> sc_rx sc_ex \<and> \<not> uart_pin_valid 0 1 (sc_rx sc_ex) \<and>
   fst (uopen sdk_ex 0 sc_ex pud_ex []) = Some False \<and>
   Gpio_set_function (sc_tx sc_ex) \<in> set (snd (snd (uopen sdk_ex 0 sc_ex pud_ex [])))"
  by (simp add: uopen_def sdk_ex_def sc_ex_def pud_ex_def uart_pin_valid_def)

text \<open>
  Claim C10. For \<open>uid\<close> 0 or 1 with a device already in \<open>uart_dev\<close>,
  \<open>pfs_dev_uart_create\<close> runs \<open>uopen\<close> on that device in place and returns the
  existing block, whatever \<open>uopen\<close> returns; the heap is not touched. So \<open>NULL\<close> can
  only come back from a call that finds no device for the \<open>uid\<close>.
\<close>

theorem pfs_dev_uart_create_existing:
  assumes "uid = 0 \<or> uid = 1"
  shows "(\<forall>a pud. uart_dev uid = Some (a, pud) \<longrightarrow>
            pfs_dev_uart_create k c orc noval fresh uid sc (uart_dev, h, t) =
              (Some a, uart_dev(uid \<mapsto> (a, fst (snd (uopen k uid sc pud t)))), h,
               snd (snd (uopen k uid sc pud t)))) \<and>
         (fst (pfs_dev_uart_create k c orc noval fresh uid sc (uart_dev, h, t)) = None \<longrightarrow>
            uart_dev uid = None)"
  using assms
  by (auto simp: pfs_dev_uart_create_def split: prod.splits option.splits)

text \<open>
  Instances of C10: an existing device of UART 0 with a configuration of nine data
  bits, on which \<open>uopen\<close> returns false, and a first creation whose allocation
  fails.
\<close>

theorem pfs_dev_uart_create_existing_witness:
  "((0::int) = 0 \<or> (0::int) = 1) \<and>
   (Map.empty(0 \<mapsto> (7, pud_ex))) (0::int) = Some (7::nat, pud_ex) \<and>
   fst (uopen sdk_ex 0 (sc_ex\<lparr>sc_rx := 1, sc_data := 9\<rparr>) pud_ex []) = Some False \<and>
   fst (pfs_dev_uart_create sdk_ex ioc_ex (\<lambda>_. True) False pud_ex 0 (sc_ex\<lparr>sc_rx := 1, sc_data := 9\<rparr>)
          (Map.empty(0 \<mapsto> (7, pud_ex)), heap0, [])) = Some 7 \<and>
   fst (pfs_dev_uart_create sdk_ex ioc_ex (\<lambda>_. False) False pud_ex 0 sc_ex (Map.empty, heap0, [])) = None \<and>
   (Map.empty :: uart_devs) 0 = None"
proof -
  have a: "(0::int) = 0 \<or> (0::int) = 1" by simp
  have b: "(Map.empty(0 \<mapsto> (7, pud_ex))) (0::int) = Some (7::nat, pud_ex)" by simp
  have u: "fst (uopen sdk_ex 0 (sc_ex\<lparr>sc_rx := 1, sc_data := 9\<rparr>) pud_ex []) = Some False"
    by (simp add: uopen_def sdk_ex_def sc_ex_def pud_ex_def uart_pin_valid_def)
  from pfs_dev_uart_create_existing [OF a, of "Map.empty(0 \<mapsto> (7, pud_ex))" sdk_ex ioc_ex "\<lambda>_. True" False pud_ex
      "sc_ex\<lparr>sc_rx := 1, sc_data := 9\<rparr>" heap0 "[]"] b
  have c: "fst (pfs_dev_uart_create sdk_ex ioc_ex (\<lambda>_. True) False pud_ex 0 (sc_ex\<lparr>sc_rx := 1, sc_data := 9\<rparr>)
          (Map.empty(0 \<mapsto> (7, pud_ex)), heap0, [])) = Some 7"
    by simp
  have d: "fst (pfs_dev_uart_create sdk_ex ioc_ex (\<lambda>_. False) False pud_ex 0 sc_ex (Map.empty, heap0, [])) = None"
    by (simp add: pfs_dev_uart_create_def pfs_malloc_def)
  from pfs_dev_uart_create_existing [OF a, of Map.empty sdk_ex ioc_ex "\<lambda>_. False" False pud_ex sc_ex heap0 "[]"] d
  have e: "(Map.empty :: uart_devs) 0 = None" by blast
  from a b u c d e show ?thesis by blast
qed

text \<open>
  Claim C4. After \<open>uart_input\<close> the request \<open>IOC_RQ_COUNT\<close> reports the bytes that
  were pending plus those that the FIFO held, up to \<open>NDATA - 1\<close>, which is 511. The
  loop leaves a byte in the FIFO only when advancing the write index by one would make
  it equal to the read index, and that is the case exactly when 511 bytes are pending;
  the bytes not taken stay in the FIFO. From an empty buffer, \<open>k < 511\<close> received bytes
  give the count \<open>k\<close>. After \<open>IOC_RQ_PURGE\<close> the count is 0.
\<close>

theorem uart_ring_full:
  assumes "dev_ok pud" and "uart_input c (pud, hw) = (pud', hw')"
  shows "uart_ioctl k IOC_RQ_COUNT (pud', t) =
           (Inr (OutInt (min (pending_count pud + int (length (rx_fifo hw))) (NDATA - 1))), pud', t) \<and>
         (rx_fifo hw' \<noteq> [] \<longrightarrow> (wptr pud' + 1) AND (NDATA - 1) = rptr pud') \<and>
         ((wptr pud' + 1) AND (NDATA - 1) = rptr pud' \<longleftrightarrow> pending_count pud' = NDATA - 1) \<and>
         int (length (rx_fifo hw')) =
           int (length (rx_fifo hw)) - (pending_count pud' - pending_count pud) \<and>
         (rptr pud = wptr pud \<and> int (length (rx_fifo hw)) < NDATA - 1 \<longrightarrow>
            uart_ioctl k IOC_RQ_COUNT (pud', t) = (Inr (OutInt (int (length (rx_fifo hw)))), pud', t)) \<and>
         fst (uart_ioctl k IOC_RQ_COUNT (snd (uart_ioctl k IOC_RQ_PURGE (pud', t)))) = Inr (OutInt 0)"
proof -
  note p = uart_input_post [OF assms]
  from p have ok': "dev_ok pud'"
    and cnt: "pending_count pud' = min (pending_count pud + int (length (rx_fifo hw))) 511"
    and app: "pending pud' @ rx_fifo hw' = pending pud @ rx_fifo hw"
    and left: "rx_fifo hw' \<noteq> [] \<longrightarrow> pending_count pud' = 511" by blast+
  have io: "uart_ioctl k IOC_RQ_COUNT (q, t) = (Inr (OutInt (pending_count q)), q, t)" for q
    by (simp add: uart_ioctl_def pending_count_def)
  have 1: "uart_ioctl k IOC_RQ_COUNT (pud', t) =
           (Inr (OutInt (min (pending_count pud + int (length (rx_fifo hw))) (NDATA - 1))), pud', t)"
    using cnt by (simp add: io NDATA_def)
  have 3: "(wptr pud' + 1) AND (NDATA - 1) = rptr pud' \<longleftrightarrow> pending_count pud' = NDATA - 1"
    using full_iff' [OF ok'] by (simp add: NDATA_def)
  have 2: "rx_fifo hw' \<noteq> [] \<longrightarrow> (wptr pud' + 1) AND (NDATA - 1) = rptr pud'"
    using left 3 by (simp add: NDATA_def)
  have "length (pending pud') + length (rx_fifo hw') = length (pending pud) + length (rx_fifo hw)"
    using app by (metis length_append)
  then have 4: "int (length (rx_fifo hw')) =
           int (length (rx_fifo hw)) - (pending_count pud' - pending_count pud)"
    using pending_count_range(1) [of pud] pending_count_range(1) [of pud']
    by (simp add: length_pending)
  have 5: "rptr pud = wptr pud \<and> int (length (rx_fifo hw)) < NDATA - 1 \<longrightarrow>
            uart_ioctl k IOC_RQ_COUNT (pud', t) = (Inr (OutInt (int (length (rx_fifo hw)))), pud', t)"
  proof
    assume a: "rptr pud = wptr pud \<and> int (length (rx_fifo hw)) < NDATA - 1"
    then have "pending_count pud = 0" using pending_empty_iff [OF assms(1)] by simp
    with a cnt have "pending_count pud' = int (length (rx_fifo hw))"
      by (simp add: NDATA_def)
    then show "uart_ioctl k IOC_RQ_COUNT (pud', t) =
               (Inr (OutInt (int (length (rx_fifo hw)))), pud', t)"
      by (simp add: io)
  qed
  have 6: "fst (uart_ioctl k IOC_RQ_COUNT (snd (uart_ioctl k IOC_RQ_PURGE (pud', t)))) = Inr (OutInt 0)"
    by (simp add: uart_ioctl_def)
  from 1 2 3 4 5 6 show ?thesis by blast
qed


text \<open>
  Instances of C4 for a FIFO that holds three bytes: an empty buffer, which then holds
  three, and a buffer with 510 bytes pending, which takes one byte, is full with 511
  and leaves two bytes in the FIFO.
\<close>

theorem uart_ring_full_witness:
  "dev_ok (ring_ex\<lparr>rptr := 7, wptr := 7\<rparr>) \<and>
   rptr (ring_ex\<lparr>rptr := 7, wptr := 7\<rparr>) = wptr (ring_ex\<lparr>rptr := 7, wptr := 7\<rparr>) \<and>
   int (length (rx_fifo hw_ex)) < NDATA - 1 \<and>
   uart_ioctl sdk_ex IOC_RQ_COUNT (fst (uart_input ioc_ex (ring_ex\<lparr>rptr := 7, wptr := 7\<rparr>, hw_ex)), []) =
     (Inr (OutInt 3), fst (uart_input ioc_ex (ring_ex\<lparr>rptr := 7, wptr := 7\<rparr>, hw_ex)), []) \<and>
   dev_ok (ring_ex\<lparr>rptr := 2, wptr := 0\<rparr>) \<and>
   uart_ioctl sdk_ex IOC_RQ_COUNT (ring_ex\<lparr>rptr := 2, wptr := 0\<rparr>, []) =
     (Inr (OutInt 510), ring_ex\<lparr>rptr := 2, wptr := 0\<rparr>, []) \<and>
   uart_ioctl sdk_ex IOC_RQ_COUNT (fst (uart_input ioc_ex (ring_ex\<lparr>rptr := 2, wptr := 0\<rparr>, hw_ex)), []) =
     (Inr (OutInt 511), fst (uart_input ioc_ex (ring_ex\<lparr>rptr := 2, wptr := 0\<rparr>, hw_ex)), []) \<and>
   length (rx_fifo (snd (uart_input ioc_ex (ring_ex\<lparr>rptr := 2, wptr := 0\<rparr>, hw_ex)))) = 2 \<and>
   (wptr (fst (uart_input ioc_ex (ring_ex\<lparr>rptr := 2, wptr := 0\<rparr>, hw_ex))) + 1) AND (NDATA - 1) =
     rptr (fst (uart_input ioc_ex (ring_ex\<lparr>rptr := 2, wptr := 0\<rparr>, hw_ex)))"
proof -
  define A where "A = ring_ex\<lparr>rptr := 7, wptr := 7\<rparr>"
  define B where "B = ring_ex\<lparr>rptr := 2, wptr := 0\<rparr>"
  define A' where "A' = uart_input ioc_ex (A, hw_ex)"
  define B' where "B' = uart_input ioc_ex (B, hw_ex)"
  have okA: "dev_ok A" by (simp add: A_def dev_ok_def ring_ex_def NDATA_def)
  have okB: "dev_ok B" by (simp add: B_def dev_ok_def ring_ex_def NDATA_def)
  have eA: "rptr A = wptr A" by (simp add: A_def)
  have len: "int (length (rx_fifo hw_ex)) < NDATA - 1" by (simp add: hw_ex_def NDATA_def)
  have l3: "int (length (rx_fifo hw_ex)) = 3" by (simp add: hw_ex_def)
  have cB: "pending_count B = 510"
    by (simp add: B_def pending_count_def NDATA_def and_511)
  have iB: "uart_ioctl sdk_ex IOC_RQ_COUNT (B, []) = (Inr (OutInt 510), B, [])"
    using cB by (simp add: uart_ioctl_def pending_count_def)
  have pA: "uart_input ioc_ex (A, hw_ex) = (fst A', snd A')" by (simp add: A'_def)
  have pB: "uart_input ioc_ex (B, hw_ex) = (fst B', snd B')" by (simp add: B'_def)
  note tA = uart_ring_full [OF okA pA, of sdk_ex "[]"]
  note tB = uart_ring_full [OF okB pB, of sdk_ex "[]"]
  from tA eA len have rA0: "uart_ioctl sdk_ex IOC_RQ_COUNT (fst A', []) =
      (Inr (OutInt (int (length (rx_fifo hw_ex)))), fst A', [])"
    by blast
  have rA: "uart_ioctl sdk_ex IOC_RQ_COUNT (fst A', []) = (Inr (OutInt 3), fst A', [])"
    using rA0 unfolding l3 .
  from tB have rB0: "uart_ioctl sdk_ex IOC_RQ_COUNT (fst B', []) =
      (Inr (OutInt (min (pending_count B + int (length (rx_fifo hw_ex))) (NDATA - 1))), fst B', [])"
    by blast
  have "min (pending_count B + int (length (rx_fifo hw_ex))) (NDATA - 1) = 511"
    unfolding cB l3 by (simp add: NDATA_def)
  with rB0 have rB: "uart_ioctl sdk_ex IOC_RQ_COUNT (fst B', []) = (Inr (OutInt 511), fst B', [])"
    by simp
  then have cB': "pending_count (fst B') = 511"
    by (simp add: uart_ioctl_def pending_count_def)
  from tB have "int (length (rx_fifo (snd B'))) =
      int (length (rx_fifo hw_ex)) - (pending_count (fst B') - pending_count B)"
    by blast
  then have lB: "length (rx_fifo (snd B')) = 2"
    unfolding cB cB' l3 by simp
  then have "rx_fifo (snd B') \<noteq> []" by auto
  with tB have fB: "(wptr (fst B') + 1) AND (NDATA - 1) = rptr (fst B')" by blast
  from okA eA len rA okB iB rB lB fB show ?thesis
    unfolding A_def B_def A'_def B'_def by blast
qed



end
